theory Spec2Isabelle
  imports Main "HOL-Library.Word" "HOL-Library.Signed_Division"
begin

unbundle bit_operations_syntax

section \<open>Machine integers of the simulator\<close>

text \<open>
  The program is compiled for an LP64 target: \<^verbatim>\<open>int\<close> is a 32-bit two's complement
  integer, \<^verbatim>\<open>unsigned int\<close> a 32-bit and \<^verbatim>\<open>unsigned long\<close> a 64-bit unsigned
  integer. All three are words; signed comparison is \<open><s\<close>, signed reading is \<open>sint\<close>.
  Arithmetic on \<^verbatim>\<open>int\<close> that leaves the 32-bit range is undefined in C++; the model
  takes the two's complement wrap-around that the usual targets compute.
\<close>

type_synonym cint = "32 word"
type_synonym uint = "32 word"
type_synonym ulong = "64 word"

text \<open>\<^verbatim>\<open>a / b\<close> on \<^verbatim>\<open>int\<close>: division truncating towards zero.\<close>

definition int_div :: "cint \<Rightarrow> cint \<Rightarrow> cint" where
  "int_div a b = word_of_int (sint a sdiv sint b)"

text \<open>Conversion of an \<^verbatim>\<open>int\<close> to \<^verbatim>\<open>unsigned long\<close> (sign extension), as in
  \<^verbatim>\<open>cycles += <int expression>\<close>.\<close>

definition to_ulong :: "cint \<Rightarrow> ulong" where
  "to_ulong x = scast x"

section \<open>Data model\<close>

record CacheLine =
  valid :: bool
  dirty :: bool
  tag :: uint
  lastUsed :: ulong

text \<open>The default member initialisers of \<^verbatim>\<open>struct CacheLine\<close>.\<close>

definition new_line :: CacheLine where
  "new_line = \<lparr>valid = False, dirty = False, tag = 0, lastUsed = 0\<rparr>"

text \<open>The six command line arguments after \<^verbatim>\<open>stoi\<close>; the three policies stay strings,
  as in the program.\<close>

record config =
  numSets :: cint
  blocksPerSet :: cint
  blockSize :: cint
  writeAlloc :: string
  writePolicy :: string
  evictPolicy :: string

datatype error =
  SizeNotPowerOfTwo
  | BlockSizeTooSmall
  | NoWriteAllocateWithWriteBack
  | IndexOutOfRange
  | AllocationFailed

text \<open>The simulation state: the cache, the seven counters of the summary and the time stamp
  counter. The line type is a parameter because the second program of the file has lines
  without a dirty bit.\<close>

record 'l sim =
  cache :: "'l list list"
  totalLoads :: ulong
  totalStores :: ulong
  loadHits :: ulong
  loadMisses :: ulong
  storeHits :: ulong
  storeMisses :: ulong
  cycles :: ulong
  timeCounter :: ulong

section \<open>Validation of the configuration\<close>

definition isPowerOfTwo :: "cint \<Rightarrow> bool" where
  "isPowerOfTwo n \<longleftrightarrow> 0 <s n \<and> n AND (n - 1) = 0"

definition validate :: "config \<Rightarrow> error option" where
  "validate cfg =
     (if \<not> isPowerOfTwo (numSets cfg) \<or> \<not> isPowerOfTwo (blocksPerSet cfg)
         \<or> \<not> isPowerOfTwo (blockSize cfg)
      then Some SizeNotPowerOfTwo
      else if blockSize cfg <s 4 then Some BlockSizeTooSmall
      else if writeAlloc cfg = ''no-write-allocate'' \<and> writePolicy cfg = ''write-back''
      then Some NoWriteAllocateWithWriteBack
      else None)"

definition isWriteAlloc :: "config \<Rightarrow> bool" where
  "isWriteAlloc cfg \<longleftrightarrow> writeAlloc cfg = ''write-allocate''"

definition useLRU :: "config \<Rightarrow> bool" where
  "useLRU cfg \<longleftrightarrow> evictPolicy cfg = ''lru''"

text \<open>The cache that
  \<^verbatim>\<open>vector<vector<CacheLine>> cache(numSets, vector<CacheLine>(blocksPerSet))\<close> builds
  when its allocations succeed, and the zeroed counters. Whether they succeed is decided in
  \<open>allocate\<close> below.\<close>

definition init_sim :: "'l \<Rightarrow> config \<Rightarrow> 'l sim" where
  "init_sim l cfg =
     \<lparr>cache = replicate (nat (sint (numSets cfg))) (replicate (nat (sint (blocksPerSet cfg))) l),
      totalLoads = 0, totalStores = 0, loadHits = 0, loadMisses = 0,
      storeHits = 0, storeMisses = 0, cycles = 0, timeCounter = 0\<rparr>"

section \<open>Address decomposition\<close>

text \<open>\<^verbatim>\<open>log2\<close> is called on validated sizes only, which are exact powers of two; there the
  floating point logarithm is the exact exponent, which this integer logarithm computes.\<close>

fun log2 :: "nat \<Rightarrow> nat" where
  "log2 n = (if n < 2 then 0 else Suc (log2 (n div 2)))"

declare log2.simps [simp del]

definition blockOffsetBits :: "config \<Rightarrow> nat" where
  "blockOffsetBits cfg = log2 (nat (sint (blockSize cfg)))"

definition setBits :: "config \<Rightarrow> nat" where
  "setBits cfg = log2 (nat (sint (numSets cfg)))"

definition setIndex :: "config \<Rightarrow> uint \<Rightarrow> uint" where
  "setIndex cfg addr = drop_bit (blockOffsetBits cfg) addr AND (push_bit (setBits cfg) 1 - 1)"

text \<open>\<^verbatim>\<open>addr >> (blockOffsetBits + setBits)\<close>. The validation admits sizes whose two
  logarithms add up to 32 or more (up to 60), and a shift of an \<^verbatim>\<open>unsigned int\<close> by 32
  or more is undefined in C++; the model takes what the shift instructions of the usual
  targets compute, a shift by the count modulo 32. The lemmas on single accesses below hold
  for an arbitrary tag, and no proof uses more of the tag than that it is a function of the
  address.\<close>

definition tag_of :: "config \<Rightarrow> uint \<Rightarrow> uint" where
  "tag_of cfg addr = drop_bit ((blockOffsetBits cfg + setBits cfg) mod 32) addr"

section \<open>The scan of a set\<close>

text \<open>The local variables of the loop body that the scan writes. \<^verbatim>\<open>ULONG_MAX\<close> is \<open>- 1\<close>.\<close>

record scan_vars =
  hit :: bool
  hitIndex :: int
  emptyIndex :: int
  evictIndex :: int
  oldestTime :: ulong

definition scan_init :: scan_vars where
  "scan_init = \<lparr>hit = False, hitIndex = - 1, emptyIndex = - 1, evictIndex = 0, oldestTime = - 1\<rparr>"

text \<open>One iteration for a line that is not a hit: remember the first empty line and the line
  with the least time stamp (strict comparison: the first one among equals).\<close>

definition note_line :: "bool \<Rightarrow> ulong \<Rightarrow> nat \<Rightarrow> scan_vars \<Rightarrow> scan_vars" where
  "note_line v lu i r =
     (let r1 = (if \<not> v \<and> emptyIndex r = - 1 then r\<lparr>emptyIndex := int i\<rparr> else r)
      in if lu < oldestTime r1 then r1\<lparr>oldestTime := lu, evictIndex := int i\<rparr> else r1)"

text \<open>\<^verbatim>\<open>for (int i = 0; i < blocksPerSet; i++)\<close> over the lines \<open>set[i], set[i+1], ...\<close>
  that are still to be visited; \<^verbatim>\<open>break\<close> at the first hit.\<close>

fun scan :: "CacheLine list \<Rightarrow> uint \<Rightarrow> nat \<Rightarrow> scan_vars \<Rightarrow> scan_vars" where
  "scan [] tg i r = r"
| "scan (l # ls) tg i r =
     (if valid l \<and> tag l = tg then r\<lparr>hit := True, hitIndex := int i\<rparr>
      else scan ls tg (Suc i) (note_line (valid l) (lastUsed l) i r))"

section \<open>The first program: one access\<close>

text \<open>\<^verbatim>\<open>set[i]\<close> on a \<^verbatim>\<open>std::vector\<close> does not check its index; an index outside the
  vector is made an explicit failure of the model.\<close>

definition read_line :: "nat \<Rightarrow> int \<Rightarrow> 'l sim \<Rightarrow> error + 'l" where
  "read_line s i st =
     (if s < length (cache st) \<and> 0 \<le> i \<and> nat i < length (cache st ! s)
      then Inr (cache st ! s ! nat i) else Inl IndexOutOfRange)"

definition write_line :: "nat \<Rightarrow> int \<Rightarrow> ('l \<Rightarrow> 'l) \<Rightarrow> 'l sim \<Rightarrow> error + 'l sim" where
  "write_line s i f st =
     (if s < length (cache st) \<and> 0 \<le> i \<and> nat i < length (cache st ! s)
      then Inr (st\<lparr>cache := (cache st)[s := (cache st ! s)[nat i := f (cache st ! s ! nat i)]]\<rparr>)
      else Inl IndexOutOfRange)"

definition and_then :: "error + 'a \<Rightarrow> ('a \<Rightarrow> error + 'b) \<Rightarrow> error + 'b" where
  "and_then x f = (case x of Inl e \<Rightarrow> Inl e | Inr a \<Rightarrow> f a)"

text \<open>\<^verbatim>\<open>100 * (blockSize / 4)\<close>, computed in \<^verbatim>\<open>int\<close>.\<close>

definition block_cost :: "config \<Rightarrow> cint" where
  "block_cost cfg = 100 * int_div (blockSize cfg) 4"

text \<open>\<^verbatim>\<open>int target = (emptyIndex != -1) ? emptyIndex : evictIndex;\<close>\<close>

definition target :: "scan_vars \<Rightarrow> int" where
  "target r = (if emptyIndex r \<noteq> - 1 then emptyIndex r else evictIndex r)"

text \<open>\<^verbatim>\<open>if (emptyIndex == -1 && writePolicy == "write-back" && set[evictIndex].dirty)
  cycles += 100 * (blockSize / 4);\<close>\<close>

definition evict_penalty :: "config \<Rightarrow> nat \<Rightarrow> scan_vars \<Rightarrow> CacheLine sim \<Rightarrow> error + CacheLine sim" where
  "evict_penalty cfg s r st =
     (if emptyIndex r = - 1 \<and> writePolicy cfg = ''write-back''
      then and_then (read_line s (evictIndex r) st)
             (\<lambda>l. Inr (if dirty l then st\<lparr>cycles := cycles st + to_ulong (block_cost cfg)\<rparr> else st))
      else Inr st)"

text \<open>The branch \<^verbatim>\<open>op == "l"\<close>.\<close>

definition load :: "config \<Rightarrow> nat \<Rightarrow> uint \<Rightarrow> scan_vars \<Rightarrow> CacheLine sim \<Rightarrow> error + CacheLine sim" where
  "load cfg s tg r st0 =
     (let st = st0\<lparr>totalLoads := totalLoads st0 + 1\<rparr> in
      if hit r then
        (let st1 = st\<lparr>loadHits := loadHits st + 1, cycles := cycles st + 1\<rparr> in
         if useLRU cfg
         then write_line s (hitIndex r) (\<lambda>l. l\<lparr>lastUsed := timeCounter st1\<rparr>) st1
         else Inr st1)
      else
        (let st1 = st\<lparr>loadMisses := loadMisses st + 1,
                      cycles := cycles st + to_ulong (block_cost cfg + 1)\<rparr> in
         and_then (evict_penalty cfg s r st1)
           (\<lambda>st2. write_line s (target r)
              (\<lambda>l. l\<lparr>valid := True, tag := tg, lastUsed := timeCounter st2, dirty := False\<rparr>) st2)))"

text \<open>The branch \<^verbatim>\<open>op == "s"\<close>. \<^verbatim>\<open>1 + 100\<close> is an \<^verbatim>\<open>int\<close> constant.\<close>

definition store :: "config \<Rightarrow> nat \<Rightarrow> uint \<Rightarrow> scan_vars \<Rightarrow> CacheLine sim \<Rightarrow> error + CacheLine sim" where
  "store cfg s tg r st0 =
     (let st = st0\<lparr>totalStores := totalStores st0 + 1\<rparr> in
      if hit r then
        (let st1 = st\<lparr>storeHits := storeHits st + 1\<rparr> in
         and_then
           (if writePolicy cfg = ''write-through''
            then Inr (st1\<lparr>cycles := cycles st1 + to_ulong (1 + 100)\<rparr>)
            else write_line s (hitIndex r) (\<lambda>l. l\<lparr>dirty := True\<rparr>)
                   (st1\<lparr>cycles := cycles st1 + 1\<rparr>))
           (\<lambda>st2. if useLRU cfg
              then write_line s (hitIndex r) (\<lambda>l. l\<lparr>lastUsed := timeCounter st2\<rparr>) st2
              else Inr st2))
      else
        (let st1 = st\<lparr>storeMisses := storeMisses st + 1\<rparr> in
         if isWriteAlloc cfg then
           (let st2 = st1\<lparr>cycles := cycles st1 + to_ulong (block_cost cfg)\<rparr> in
            and_then (evict_penalty cfg s r st2)
              (\<lambda>st3. and_then
                 (write_line s (target r)
                    (\<lambda>l. l\<lparr>valid := True, tag := tg, lastUsed := timeCounter st3\<rparr>) st3)
                 (\<lambda>st4. if writePolicy cfg = ''write-through''
                    then write_line s (target r) (\<lambda>l. l\<lparr>dirty := False\<rparr>)
                           (st4\<lparr>cycles := cycles st4 + to_ulong (1 + 100)\<rparr>)
                    else write_line s (target r) (\<lambda>l. l\<lparr>dirty := True\<rparr>)
                           (st4\<lparr>cycles := cycles st4 + 1\<rparr>))))
         else Inr (st1\<lparr>cycles := cycles st1 + 100\<rparr>)))"

text \<open>The body of the \<^verbatim>\<open>while\<close> loop for an access with operation \<open>oper\<close> that falls into
  set \<open>s\<close> with tag \<open>tg\<close>: the scan of \<^verbatim>\<open>cache[setIndex]\<close> over the indices below
  \<^verbatim>\<open>blocksPerSet\<close>, \<^verbatim>\<open>timeCounter++\<close>, then the branch of the operation. Any other
  operation string only advances the time stamp counter.\<close>

definition access :: "config \<Rightarrow> string \<Rightarrow> nat \<Rightarrow> uint \<Rightarrow> CacheLine sim \<Rightarrow> error + CacheLine sim" where
  "access cfg oper s tg st =
     (if s < length (cache st) \<and> nat (sint (blocksPerSet cfg)) \<le> length (cache st ! s) then
        (let r = scan (take (nat (sint (blocksPerSet cfg))) (cache st ! s)) tg 0 scan_init;
             st1 = st\<lparr>timeCounter := timeCounter st + 1\<rparr>
         in if oper = ''l'' then load cfg s tg r st1
            else if oper = ''s'' then store cfg s tg r st1
            else Inr st1)
      else Inl IndexOutOfRange)"

section \<open>The first program: a run\<close>

text \<open>A line of the trace after tokenisation: the operation and the address (the third field
  is read and ignored).\<close>

type_synonym trace_line = "string \<times> uint"

definition step :: "config \<Rightarrow> trace_line \<Rightarrow> CacheLine sim \<Rightarrow> error + CacheLine sim" where
  "step cfg a st = access cfg (fst a) (unat (setIndex cfg (snd a))) (tag_of cfg (snd a)) st"

fun run_from :: "config \<Rightarrow> trace_line list \<Rightarrow> CacheLine sim \<Rightarrow> error + CacheLine sim" where
  "run_from cfg [] st = Inr st"
| "run_from cfg (a # as) st = and_then (step cfg a st) (run_from cfg as)"

text \<open>\<^verbatim>\<open>main\<close> after argument conversion where the cache can be allocated: validation,
  then the loop over the trace from the cache that the constructor builds.\<close>

definition simulate :: "config \<Rightarrow> trace_line list \<Rightarrow> error + CacheLine sim" where
  "simulate cfg t =
     (case validate cfg of Some e \<Rightarrow> Inl e | None \<Rightarrow> run_from cfg t (init_sim new_line cfg))"

text \<open>The allocations of the constructor at line 58. It builds the prototype row
  \<^verbatim>\<open>vector<CacheLine>(blocksPerSet)\<close>, then the outer vector of \<^verbatim>\<open>numSets\<close> row headers
  and \<^verbatim>\<open>numSets\<close> copies of the prototype, which is alive until the declaration ends. On
  the LP64 target a line occupies 16 bytes (two \<^verbatim>\<open>bool\<close>, two bytes of padding, a 4-byte
  tag and an 8-byte time stamp) and a row header 24 bytes (three pointers).\<close>

definition cache_bytes :: "config \<Rightarrow> nat" where
  "cache_bytes cfg =
     16 * nat (sint (blocksPerSet cfg)) * (nat (sint (numSets cfg)) + 1)
     + 24 * nat (sint (numSets cfg))"

text \<open>When the allocator cannot supply these bytes, the constructor throws
  \<^verbatim>\<open>std::bad_alloc\<close>. How many bytes the allocator can supply depends on the machine and is
  the parameter \<open>capacity\<close>; it is below \<open>2 ^ 64\<close> on every LP64 target, whose sizes and
  addresses have 64 bits.\<close>

definition allocate :: "nat \<Rightarrow> 'l \<Rightarrow> config \<Rightarrow> error + 'l sim" where
  "allocate capacity l cfg =
     (if cache_bytes cfg \<le> capacity then Inr (init_sim l cfg) else Inl AllocationFailed)"

text \<open>\<^verbatim>\<open>main\<close> after argument conversion on a machine whose allocator can supply
  \<open>capacity\<close> bytes: validation, then the construction of the cache, then the loop over the
  trace. \<^verbatim>\<open>main\<close> catches no exception, so a failed allocation ends the program before
  the first line of the trace is read.\<close>

definition csim :: "nat \<Rightarrow> config \<Rightarrow> trace_line list \<Rightarrow> error + CacheLine sim" where
  "csim capacity cfg t =
     (case validate cfg of
        Some e \<Rightarrow> Inl e
      | None \<Rightarrow> and_then (allocate capacity new_line cfg) (run_from cfg t))"

section \<open>The second program\<close>

text \<open>The second program of the file. Its lines have no dirty bit.\<close>

record CacheLine2 =
  valid2 :: bool
  tag2 :: uint
  lastUsed2 :: ulong

definition new_line2 :: CacheLine2 where
  "new_line2 = \<lparr>valid2 = False, tag2 = 0, lastUsed2 = 0\<rparr>"

text \<open>The local variables of its scan (there is no \<^verbatim>\<open>hitIndex\<close>).\<close>

record scan_vars2 =
  hit2 :: bool
  emptyIndex2 :: int
  evictIndex2 :: int
  oldestTime2 :: ulong

definition scan_init2 :: scan_vars2 where
  "scan_init2 = \<lparr>hit2 = False, emptyIndex2 = - 1, evictIndex2 = 0, oldestTime2 = - 1\<rparr>"

definition note_line2 :: "bool \<Rightarrow> ulong \<Rightarrow> nat \<Rightarrow> scan_vars2 \<Rightarrow> scan_vars2" where
  "note_line2 v lu i r =
     (let r1 = (if \<not> v \<and> emptyIndex2 r = - 1 then r\<lparr>emptyIndex2 := int i\<rparr> else r)
      in if lu < oldestTime2 r1 then r1\<lparr>oldestTime2 := lu, evictIndex2 := int i\<rparr> else r1)"

text \<open>Its scan writes the time stamp of a hit line itself, under LRU, with the value
  \<open>tc\<close> that \<^verbatim>\<open>timeCounter\<close> has before \<^verbatim>\<open>timeCounter++\<close>; it returns the variables and
  the lines as the scan leaves them.\<close>

fun scan2 :: "bool \<Rightarrow> ulong \<Rightarrow> CacheLine2 list \<Rightarrow> uint \<Rightarrow> nat \<Rightarrow> scan_vars2
                \<Rightarrow> scan_vars2 \<times> CacheLine2 list" where
  "scan2 lru tc [] tg i r = (r, [])"
| "scan2 lru tc (l # ls) tg i r =
     (if valid2 l \<and> tag2 l = tg
      then (r\<lparr>hit2 := True\<rparr>, (if lru then l\<lparr>lastUsed2 := tc\<rparr> else l) # ls)
      else (case scan2 lru tc ls tg (Suc i) (note_line2 (valid2 l) (lastUsed2 l) i r) of
              (r', ls') \<Rightarrow> (r', l # ls')))"

definition target2 :: "scan_vars2 \<Rightarrow> int" where
  "target2 r = (if emptyIndex2 r \<noteq> - 1 then emptyIndex2 r else evictIndex2 r)"

text \<open>\<^verbatim>\<open>set[target].valid = true; set[target].tag = tag; set[target].lastUsed = timeCounter;\<close>\<close>

definition install2 :: "nat \<Rightarrow> uint \<Rightarrow> scan_vars2 \<Rightarrow> CacheLine2 sim \<Rightarrow> error + CacheLine2 sim" where
  "install2 s tg r st =
     write_line s (target2 r) (\<lambda>l. l\<lparr>valid2 := True, tag2 := tg, lastUsed2 := timeCounter st\<rparr>) st"

definition load2 :: "config \<Rightarrow> nat \<Rightarrow> uint \<Rightarrow> scan_vars2 \<Rightarrow> CacheLine2 sim \<Rightarrow> error + CacheLine2 sim" where
  "load2 cfg s tg r st0 =
     (let st = st0\<lparr>totalLoads := totalLoads st0 + 1\<rparr> in
      if hit2 r then Inr (st\<lparr>loadHits := loadHits st + 1, cycles := cycles st + 1\<rparr>)
      else install2 s tg r
             (st\<lparr>loadMisses := loadMisses st + 1,
                  cycles := cycles st + to_ulong (block_cost cfg)\<rparr>))"

definition store2 :: "config \<Rightarrow> nat \<Rightarrow> uint \<Rightarrow> scan_vars2 \<Rightarrow> CacheLine2 sim \<Rightarrow> error + CacheLine2 sim" where
  "store2 cfg s tg r st0 =
     (let st = st0\<lparr>totalStores := totalStores st0 + 1\<rparr> in
      if hit2 r then Inr (st\<lparr>storeHits := storeHits st + 1, cycles := cycles st + 1\<rparr>)
      else
        (let st1 = st\<lparr>storeMisses := storeMisses st + 1,
                      cycles := cycles st + to_ulong (block_cost cfg)\<rparr>
         in if isWriteAlloc cfg then install2 s tg r st1 else Inr st1))"

text \<open>The body of its loop: the scan (which may write a time stamp), then
  \<^verbatim>\<open>timeCounter++\<close>, then the branch of the operation.\<close>

definition access2 :: "config \<Rightarrow> string \<Rightarrow> nat \<Rightarrow> uint \<Rightarrow> CacheLine2 sim \<Rightarrow> error + CacheLine2 sim" where
  "access2 cfg oper s tg st =
     (if s < length (cache st) \<and> nat (sint (blocksPerSet cfg)) \<le> length (cache st ! s) then
        (case scan2 (useLRU cfg) (timeCounter st)
                (take (nat (sint (blocksPerSet cfg))) (cache st ! s)) tg 0 scan_init2 of
           (r, scanned) \<Rightarrow>
             (let st1 = st\<lparr>cache := (cache st)[s := scanned
                                @ drop (nat (sint (blocksPerSet cfg))) (cache st ! s)],
                            timeCounter := timeCounter st + 1\<rparr>
              in if oper = ''l'' then load2 cfg s tg r st1
                 else if oper = ''s'' then store2 cfg s tg r st1
                 else Inr st1))
      else Inl IndexOutOfRange)"

definition step2 :: "config \<Rightarrow> trace_line \<Rightarrow> CacheLine2 sim \<Rightarrow> error + CacheLine2 sim" where
  "step2 cfg a st = access2 cfg (fst a) (unat (setIndex cfg (snd a))) (tag_of cfg (snd a)) st"

fun run_from2 :: "config \<Rightarrow> trace_line list \<Rightarrow> CacheLine2 sim \<Rightarrow> error + CacheLine2 sim" where
  "run_from2 cfg [] st = Inr st"
| "run_from2 cfg (a # as) st = and_then (step2 cfg a st) (run_from2 cfg as)"

definition simulate2 :: "config \<Rightarrow> trace_line list \<Rightarrow> error + CacheLine2 sim" where
  "simulate2 cfg t =
     (case validate cfg of Some e \<Rightarrow> Inl e | None \<Rightarrow> run_from2 cfg t (init_sim new_line2 cfg))"

section \<open>Notions used in the statements\<close>

text \<open>A tag is resident in a set when a valid line holds it; the first hit, the first empty
  line and the victim (the first line among those with the least time stamp) of a set.\<close>

definition resident :: "CacheLine list \<Rightarrow> uint \<Rightarrow> bool" where
  "resident ls tg \<longleftrightarrow> (\<exists>l \<in> set ls. valid l \<and> tag l = tg)"

definition is_hit_at :: "CacheLine list \<Rightarrow> uint \<Rightarrow> nat \<Rightarrow> bool" where
  "is_hit_at ls tg j \<longleftrightarrow>
     j < length ls \<and> valid (ls ! j) \<and> tag (ls ! j) = tg
     \<and> (\<forall>k<j. \<not> (valid (ls ! k) \<and> tag (ls ! k) = tg))"

definition is_first_empty :: "CacheLine list \<Rightarrow> nat \<Rightarrow> bool" where
  "is_first_empty ls j \<longleftrightarrow> j < length ls \<and> \<not> valid (ls ! j) \<and> (\<forall>k<j. valid (ls ! k))"

definition is_victim :: "CacheLine list \<Rightarrow> nat \<Rightarrow> bool" where
  "is_victim ls j \<longleftrightarrow>
     j < length ls \<and> (\<forall>k<length ls. lastUsed (ls ! j) \<le> lastUsed (ls ! k))
     \<and> (\<forall>k<j. lastUsed (ls ! j) < lastUsed (ls ! k))"

text \<open>The insertion target of a miss: the first empty line, or the victim of a full set.\<close>

definition is_target :: "CacheLine list \<Rightarrow> nat \<Rightarrow> bool" where
  "is_target ls j \<longleftrightarrow> (if \<forall>l \<in> set ls. valid l then is_victim ls j else is_first_empty ls j)"

text \<open>The shape that the constructor gives the cache and that no access changes.\<close>

definition shape :: "config \<Rightarrow> 'l sim \<Rightarrow> bool" where
  "shape cfg st \<longleftrightarrow>
     length (cache st) = nat (sint (numSets cfg))
     \<and> (\<forall>ls \<in> set (cache st). length ls = nat (sint (blocksPerSet cfg)))"

section \<open>The effect of an access on its set, and the invariants of a run\<close>

text \<open>The effect of one access on the set it falls into, as a function of the set alone:
  the line a hit leaves behind, the line a miss installs, and the new set.\<close>

definition hit_line :: "config \<Rightarrow> string \<Rightarrow> ulong \<Rightarrow> CacheLine \<Rightarrow> CacheLine" where
  "hit_line cfg oper tc l =
     l\<lparr>dirty := (if oper = ''s'' \<and> writePolicy cfg \<noteq> ''write-through'' then True else dirty l),
       lastUsed := (if useLRU cfg then tc else lastUsed l)\<rparr>"

definition install_line :: "config \<Rightarrow> string \<Rightarrow> uint \<Rightarrow> ulong \<Rightarrow> CacheLine \<Rightarrow> CacheLine" where
  "install_line cfg oper tg tc l =
     l\<lparr>valid := True, tag := tg, lastUsed := tc,
       dirty := (oper = ''s'' \<and> writePolicy cfg \<noteq> ''write-through'')\<rparr>"

definition next_set :: "config \<Rightarrow> string \<Rightarrow> uint \<Rightarrow> ulong \<Rightarrow> CacheLine list \<Rightarrow> CacheLine list" where
  "next_set cfg oper tg tc ls =
     (let r = scan ls tg 0 scan_init in
      if oper \<noteq> ''l'' \<and> oper \<noteq> ''s'' then ls
      else if hit r then ls[nat (hitIndex r) := hit_line cfg oper tc (ls ! nat (hitIndex r))]
      else if oper = ''l'' \<or> isWriteAlloc cfg
      then ls[nat (target r) := install_line cfg oper tg tc (ls ! nat (target r))]
      else ls)"

text \<open>Invariants of the reachable states.\<close>

definition counts_ok :: "'l sim \<Rightarrow> bool" where
  "counts_ok st \<longleftrightarrow>
     totalLoads st = loadHits st + loadMisses st \<and> totalStores st = storeHits st + storeMisses st"

definition distinct_tags :: "CacheLine list \<Rightarrow> bool" where
  "distinct_tags ls \<longleftrightarrow>
     (\<forall>i<length ls. \<forall>j<length ls. i \<noteq> j \<and> valid (ls ! i) \<and> valid (ls ! j) \<longrightarrow> tag (ls ! i) \<noteq> tag (ls ! j))"

definition distinct_stamps :: "CacheLine list \<Rightarrow> bool" where
  "distinct_stamps ls \<longleftrightarrow>
     (\<forall>i<length ls. \<forall>j<length ls. i \<noteq> j \<and> valid (ls ! i) \<and> valid (ls ! j)
        \<longrightarrow> lastUsed (ls ! i) \<noteq> lastUsed (ls ! j))"

definition stamps_upto :: "nat \<Rightarrow> CacheLine list \<Rightarrow> bool" where
  "stamps_upto n ls \<longleftrightarrow> (\<forall>l \<in> set ls. valid l \<longrightarrow> unat (lastUsed l) \<le> n)"

definition inv1 :: "config \<Rightarrow> CacheLine sim \<Rightarrow> bool" where
  "inv1 cfg st \<longleftrightarrow> shape cfg st \<and> counts_ok st \<and> (\<forall>ls \<in> set (cache st). distinct_tags ls)"

definition inv2 :: "nat \<Rightarrow> CacheLine sim \<Rightarrow> bool" where
  "inv2 n st \<longleftrightarrow>
     timeCounter st = of_nat n
     \<and> (\<forall>ls \<in> set (cache st). distinct_stamps ls \<and> stamps_upto n ls)"

section \<open>Concrete configurations and notions of the specification\<close>

text \<open>The configurations of the concrete scenarios: one set of one line with 4-byte blocks.\<close>

definition scenario_config :: config where
  "scenario_config =
     \<lparr>numSets = 1, blocksPerSet = 1, blockSize = 4, writeAlloc = ''write-allocate'',
      writePolicy = ''write-back'', evictPolicy = ''lru''\<rparr>"

definition scenario_D_config :: config where
  "scenario_D_config =
     \<lparr>numSets = 1, blocksPerSet = 1, blockSize = 4, writeAlloc = ''no-write-allocate'',
      writePolicy = ''write-through'', evictPolicy = ''lru''\<rparr>"

text \<open>One set of two lines and one set of four lines with 4-byte blocks, for the statements
  about eviction.\<close>

definition two_way_config :: "string \<Rightarrow> config" where
  "two_way_config ev =
     \<lparr>numSets = 1, blocksPerSet = 2, blockSize = 4, writeAlloc = ''write-allocate'',
      writePolicy = ''write-back'', evictPolicy = ev\<rparr>"

definition four_way_config :: "string \<Rightarrow> config" where
  "four_way_config ev =
     \<lparr>numSets = 1, blocksPerSet = 4, blockSize = 4, writeAlloc = ''write-allocate'',
      writePolicy = ''write-back'', evictPolicy = ev\<rparr>"

text \<open>The notions of the specification for the configuration: a size is a positive power of
  two; each policy argument is one of the two words the usage line allows.\<close>

definition positive_power_of_two :: "cint \<Rightarrow> bool" where
  "positive_power_of_two n \<longleftrightarrow> (\<exists>k. sint n = 2 ^ k)"

definition legal_policies :: "config \<Rightarrow> bool" where
  "legal_policies cfg \<longleftrightarrow>
     (writeAlloc cfg = ''write-allocate'' \<or> writeAlloc cfg = ''no-write-allocate'')
     \<and> (writePolicy cfg = ''write-through'' \<or> writePolicy cfg = ''write-back'')
     \<and> (evictPolicy cfg = ''lru'' \<or> evictPolicy cfg = ''fifo'')"

definition illegal_pair_config :: config where
  "illegal_pair_config =
     \<lparr>numSets = 1, blocksPerSet = 1, blockSize = 4, writeAlloc = ''no-write-allocate'',
      writePolicy = ''write-back'', evictPolicy = ''lru''\<rparr>"

text \<open>A validated configuration with \<open>2 ^ 30\<close> sets of \<open>2 ^ 30\<close> lines: its lines alone
  occupy \<open>2 ^ 64\<close> bytes.\<close>

definition huge_config :: config where
  "huge_config =
     \<lparr>numSets = 1073741824, blocksPerSet = 1073741824, blockSize = 4,
      writeAlloc = ''write-allocate'', writePolicy = ''write-back'', evictPolicy = ''lru''\<rparr>"

text \<open>A validated configuration whose block size makes \<^verbatim>\<open>100 * (blockSize / 4)\<close> leave the
  range of \<^verbatim>\<open>int\<close>: one set of one line with blocks of \<open>2 ^ 27\<close> bytes.\<close>

definition big_block_config :: config where
  "big_block_config =
     \<lparr>numSets = 1, blocksPerSet = 1, blockSize = 134217728, writeAlloc = ''write-allocate'',
      writePolicy = ''write-back'', evictPolicy = ''lru''\<rparr>"

text \<open>The tags other than \<open>T\<close> that the lines of a trace access in set \<open>s\<close>.\<close>

definition other_tags :: "config \<Rightarrow> nat \<Rightarrow> uint \<Rightarrow> trace_line list \<Rightarrow> uint list" where
  "other_tags cfg s T t =
     map (\<lambda>b. tag_of cfg (snd b))
       (filter (\<lambda>b. unat (setIndex cfg (snd b)) = s \<and> tag_of cfg (snd b) \<noteq> T) t)"

text \<open>Tag \<open>T\<close> is kept: it is resident with a time stamp of at least \<open>n0\<close>, and every other
  valid line stamped \<open>n0\<close> or later holds a tag of \<open>D\<close>.\<close>

definition kept :: "nat \<Rightarrow> uint \<Rightarrow> uint set \<Rightarrow> CacheLine list \<Rightarrow> bool" where
  "kept n0 T D ls \<longleftrightarrow>
     (\<exists>p<length ls. valid (ls ! p) \<and> tag (ls ! p) = T \<and> n0 \<le> unat (lastUsed (ls ! p))
        \<and> (\<forall>q<length ls. q \<noteq> p \<and> valid (ls ! q) \<and> n0 \<le> unat (lastUsed (ls ! q))
              \<longrightarrow> tag (ls ! q) \<in> D))"

text \<open>What a finished run reports apart from the cycles (total loads, total stores, load hits,
  load misses, store hits, store misses), and whether it leaves a tag resident in a set.\<close>

definition final_counts :: "error + 'l sim \<Rightarrow> (ulong \<times> ulong \<times> ulong \<times> ulong \<times> ulong \<times> ulong) option" where
  "final_counts r =
     (case r of Inl e \<Rightarrow> None
      | Inr st \<Rightarrow> Some (totalLoads st, totalStores st, loadHits st, loadMisses st,
                       storeHits st, storeMisses st))"

definition leaves_resident :: "error + CacheLine sim \<Rightarrow> nat \<Rightarrow> uint \<Rightarrow> bool" where
  "leaves_resident r s T = (case r of Inl e \<Rightarrow> False | Inr st \<Rightarrow> resident (cache st ! s) T)"

text \<open>A validated configuration with the largest block size whose cost stays within
  \<^verbatim>\<open>int\<close> (one set of one line, blocks of \<open>2 ^ 26\<close> bytes), the trace of \<open>n\<close> loads that
  alternate between the tags 0 and 1, and the state after these loads, all of them misses.\<close>

definition wide_block_config :: config where
  "wide_block_config =
     \<lparr>numSets = 1, blocksPerSet = 1, blockSize = 67108864, writeAlloc = ''write-allocate'',
      writePolicy = ''write-back'', evictPolicy = ''lru''\<rparr>"

fun alternating :: "nat \<Rightarrow> trace_line list" where
  "alternating 0 = []"
| "alternating (Suc n) = alternating n @ [(''l'', if even n then 0 else 67108864)]"

definition alternating_state :: "nat \<Rightarrow> CacheLine sim" where
  "alternating_state n =
     \<lparr>cache = [[\<lparr>valid = (0 < n), dirty = False, tag = (if even n then 1 else 0) * of_bool (0 < n),
                 lastUsed = of_nat n\<rparr>]],
      totalLoads = of_nat n, totalStores = 0, loadHits = 0, loadMisses = of_nat n,
      storeHits = 0, storeMisses = 0, cycles = of_nat n * 1677721601, timeCounter = of_nat n\<rparr>"

section \<open>Powers of two\<close>

lemma and_pred_nat_even: "0 < n \<Longrightarrow> (2 * n) AND (2 * n - Suc 0) = 2 * (n AND (n - Suc 0))"
proof -
  assume "0 < n"
  then have d: "(2 * n - Suc 0) div 2 = n - Suc 0" by arith
  show ?thesis
    by (subst and_nat_rec) (simp add: d)
qed

lemma and_pred_nat_odd: "Suc (2 * n) AND (2 * n) = 2 * n"
  by (subst and_nat_rec) simp

lemma pow2_nat: "0 < n \<Longrightarrow> n AND (n - 1) = 0 \<Longrightarrow> \<exists>k. n = 2 ^ k" for n :: nat
proof (induction n rule: nat_bit_induct)
  case zero
  then show ?case by simp
next
  case (even n)
  from even.prems(2) even.hyps have "n AND (n - 1) = 0"
    by (simp add: and_pred_nat_even)
  with even.IH even.hyps obtain k where "n = 2 ^ k" by blast
  then have "2 * n = 2 ^ Suc k" by simp
  then show ?case by blast
next
  case (odd n)
  from odd.prems(2) have "n = 0" by (simp add: and_pred_nat_odd)
  then have "Suc (2 * n) = 2 ^ 0" by simp
  then show ?case by blast
qed

lemma pow2_and_pred: "(2 ^ k :: 'a::len word) AND (2 ^ k - 1) = 0"
  by (rule bit_eqI) (auto simp: bit_simps simp flip: mask_eq_exp_minus_1)

lemma word_of_unat_pow2: "unat (n :: 32 word) = 2 ^ k \<Longrightarrow> n = 2 ^ k"
proof -
  assume "unat n = 2 ^ k"
  then have "word_of_nat (unat n) = (word_of_nat (2 ^ k) :: 32 word)" by simp
  then show ?thesis by simp
qed

lemma sint_pow2: "k < 31 \<Longrightarrow> sint (2 ^ k :: 32 word) = 2 ^ k"
proof -
  assume k: "k < 31"
  have "(2 ^ k :: 32 word) = word_of_int (2 ^ k)" by simp
  then have "sint (2 ^ k :: 32 word) = signed_take_bit (LENGTH(32) - 1) (2 ^ k :: int)"
    by (simp only: sint_sbintrunc')
  also have "\<dots> = 2 ^ k"
  proof -
    have "(2 :: int) ^ k < 2 ^ 31" using k by (intro power_strict_increasing) simp_all
    moreover have "- (2 ^ 31) \<le> (2 :: int) ^ k"
      by (rule order_trans [of _ 0]) simp_all
    ultimately have "signed_take_bit 31 ((2 :: int) ^ k) = 2 ^ k"
      by (intro signed_take_bit_int_eq_self) 
    then show ?thesis by simp
  qed
  finally show ?thesis .
qed

lemma log2_pow: "log2 (2 ^ k) = k"
  by (induction k) (simp_all add: log2.simps)

lemma isPowerOfTwo_iff: "isPowerOfTwo n \<longleftrightarrow> (\<exists>k<31. n = 2 ^ k)"
proof
  assume p: "isPowerOfTwo n"
  then have pos: "0 < sint n" and z: "n AND (n - 1) = 0"
    by (simp_all add: isPowerOfTwo_def word_sless_alt)
  from pos have n0: "n \<noteq> 0" by auto
  have "unat (n AND (n - 1)) = unat n AND (unat n - 1)"
    by (simp add: unsigned_and_eq unat_minus_one [OF n0])
  with z have "unat n AND (unat n - 1) = 0" by simp
  moreover from n0 have "0 < unat n" by (simp add: unat_gt_0)
  ultimately obtain k where k: "unat n = 2 ^ k" using pow2_nat by blast
  have "unat n < 2 ^ 32" using unsigned_less [of n] by simp
  with k have "(2::nat) ^ k < 2 ^ 32" by simp
  then have k32: "k < 32" by (rule power_less_imp_less_exp [rotated]) simp
  have nk: "n = 2 ^ k" using k by (rule word_of_unat_pow2)
  have "k \<noteq> 31"
  proof
    assume "k = 31"
    with nk have "sint n = - (2 ^ 31)" by simp
    with pos show False by simp
  qed
  with k32 nk show "\<exists>k<31. n = 2 ^ k" by (intro exI [of _ k]) simp
next
  assume "\<exists>k<31. n = 2 ^ k"
  then obtain k where k: "k < 31" "n = 2 ^ k" by blast
  from sint_pow2 [OF k(1)] k(2) have "0 < sint n" by simp
  with k(2) show "isPowerOfTwo n"
    by (simp add: isPowerOfTwo_def word_sless_alt pow2_and_pred)
qed

lemma isPowerOfTwo_size:
  assumes "isPowerOfTwo n"
  shows "\<exists>k<31. n = 2 ^ k \<and> nat (sint n) = 2 ^ k"
proof -
  from assms obtain k where k: "k < 31" "n = 2 ^ k" by (auto simp: isPowerOfTwo_iff)
  from sint_pow2 [OF k(1)] k(2) have "nat (sint n) = 2 ^ k"
    by (simp add: nat_power_eq)
  with k show ?thesis by blast
qed

lemma setIndex_less:
  assumes "isPowerOfTwo (numSets cfg)"
  shows "unat (setIndex cfg addr) < nat (sint (numSets cfg))"
proof -
  from isPowerOfTwo_size [OF assms] obtain k where k: "k < 31" "numSets cfg = 2 ^ k"
    "nat (sint (numSets cfg)) = 2 ^ k" by blast
  have sb: "setBits cfg = k" by (simp add: setBits_def k(3) log2_pow)
  have "setIndex cfg addr = take_bit k (drop_bit (blockOffsetBits cfg) addr)"
    by (simp add: setIndex_def sb push_bit_eq_mult take_bit_eq_mask mask_eq_exp_minus_1)
  then have "unat (setIndex cfg addr) < 2 ^ k"
    by (simp add: unsigned_take_bit_eq)
  then show ?thesis by (simp only: k(3))
qed

section \<open>Properties of the scan\<close>

lemma note_line_hit [simp]: "hit (note_line v lu i r) = hit r"
  by (simp add: note_line_def Let_def)

lemma note_line_hitIndex [simp]: "hitIndex (note_line v lu i r) = hitIndex r"
  by (simp add: note_line_def Let_def)

lemma scan_hit_iff: "hit (scan ls tg i r) \<longleftrightarrow> hit r \<or> resident ls tg"
  by (induction ls arbitrary: i r) (auto simp: resident_def)

lemma scan_hitIndex:
  "resident ls tg \<Longrightarrow> \<exists>j. is_hit_at ls tg j \<and> hitIndex (scan ls tg i r) = int (i + j)"
proof (induction ls arbitrary: i r)
  case Nil
  then show ?case by (simp add: resident_def)
next
  case (Cons l ls)
  show ?case
  proof (cases "valid l \<and> tag l = tg")
    case True
    then have "is_hit_at (l # ls) tg 0" by (simp add: is_hit_at_def)
    with True show ?thesis by (intro exI [of _ 0]) simp
  next
    case False
    with Cons.prems have "resident ls tg" by (auto simp: resident_def)
    from Cons.IH [OF this, of "Suc i" "note_line (valid l) (lastUsed l) i r"]
    obtain j where j: "is_hit_at ls tg j"
      "hitIndex (scan ls tg (Suc i) (note_line (valid l) (lastUsed l) i r)) = int (Suc i + j)"
      by blast
    from j(1) False have "is_hit_at (l # ls) tg (Suc j)"
      by (auto simp: is_hit_at_def less_Suc_eq_0_disj)
    with j(2) False show ?thesis by (intro exI [of _ "Suc j"]) simp
  qed
qed

lemma scan_miss_hitIndex:
  "\<not> resident ls tg \<Longrightarrow> hitIndex (scan ls tg i r) = hitIndex r"
  by (induction ls arbitrary: i r) (auto simp: resident_def)

text \<open>The first empty line.\<close>

lemma emptyIndex_note_line:
  "emptyIndex (note_line v lu i r) = (if \<not> v \<and> emptyIndex r = - 1 then int i else emptyIndex r)"
  by (simp add: note_line_def Let_def)

lemma scan_emptyIndex_keep:
  "\<not> resident ls tg \<Longrightarrow> emptyIndex r \<noteq> - 1 \<Longrightarrow> emptyIndex (scan ls tg i r) = emptyIndex r"
  by (induction ls arbitrary: i r) (auto simp: resident_def emptyIndex_note_line)

lemma scan_emptyIndex:
  "\<not> resident ls tg \<Longrightarrow> emptyIndex r = - 1 \<Longrightarrow>
     (if \<forall>l \<in> set ls. valid l then emptyIndex (scan ls tg i r) = - 1
      else \<exists>j. is_first_empty ls j \<and> emptyIndex (scan ls tg i r) = int (i + j))"
proof (induction ls arbitrary: i r)
  case Nil
  then show ?case by simp
next
  case (Cons l ls)
  from Cons.prems have nr: "\<not> resident ls tg" and nl: "\<not> (valid l \<and> tag l = tg)"
    by (auto simp: resident_def)
  show ?case
  proof (cases "valid l")
    case True
    with Cons.prems have e: "emptyIndex (note_line (valid l) (lastUsed l) i r) = - 1"
      by (simp add: emptyIndex_note_line)
    note IH = Cons.IH [OF nr e, of "Suc i"]
    show ?thesis
    proof (cases "\<forall>l \<in> set ls. valid l")
      case all: True
      with IH True nl show ?thesis by simp
    next
      case False
      with IH obtain j where j: "is_first_empty ls j"
        "emptyIndex (scan ls tg (Suc i) (note_line (valid l) (lastUsed l) i r)) = int (Suc i + j)"
        by auto
      from j(1) True have "is_first_empty (l # ls) (Suc j)"
        by (auto simp: is_first_empty_def less_Suc_eq_0_disj)
      with j(2) nl False True show ?thesis
        by (auto intro!: exI [of _ "Suc j"])
    qed
  next
    case False
    with Cons.prems have e: "emptyIndex (note_line (valid l) (lastUsed l) i r) = int i"
      by (simp add: emptyIndex_note_line)
    then have "emptyIndex (note_line (valid l) (lastUsed l) i r) \<noteq> - 1" by simp
    from scan_emptyIndex_keep [OF nr this, of "Suc i"] e
    have "emptyIndex (scan ls tg (Suc i) (note_line (valid l) (lastUsed l) i r)) = int i" by simp
    moreover from False have "is_first_empty (l # ls) 0" by (simp add: is_first_empty_def)
    ultimately show ?thesis using False nl by (auto intro!: exI [of _ 0])
  qed
qed

text \<open>The line with the least time stamp.\<close>

lemma evict_note_line:
  "oldestTime (note_line v lu i r) = (if lu < oldestTime r then lu else oldestTime r)"
  "evictIndex (note_line v lu i r) = (if lu < oldestTime r then int i else evictIndex r)"
  by (simp_all add: note_line_def Let_def)

lemma scan_evict:
  "\<not> resident ls tg \<Longrightarrow>
     (let res = scan ls tg i r in
        (\<forall>l \<in> set ls. oldestTime res \<le> lastUsed l) \<and>
        ((oldestTime res = oldestTime r \<and> evictIndex res = evictIndex r)
         \<or> (\<exists>j<length ls. evictIndex res = int (i + j) \<and> lastUsed (ls ! j) = oldestTime res
               \<and> oldestTime res < oldestTime r \<and> (\<forall>k<j. oldestTime res < lastUsed (ls ! k)))))"
proof (induction ls arbitrary: i r)
  case Nil
  then show ?case by simp
next
  case (Cons l ls)
  from Cons.prems have nr: "\<not> resident ls tg" and nl: "\<not> (valid l \<and> tag l = tg)"
    by (auto simp: resident_def)
  define r' where "r' = note_line (valid l) (lastUsed l) i r"
  define res where "res = scan ls tg (Suc i) r'"
  have res: "scan (l # ls) tg i r = res" using nl by (auto simp: res_def r'_def)
  from Cons.IH [OF nr, of "Suc i" r']
  have IH1: "\<forall>l \<in> set ls. oldestTime res \<le> lastUsed l"
    and IH2: "(oldestTime res = oldestTime r' \<and> evictIndex res = evictIndex r')
         \<or> (\<exists>j<length ls. evictIndex res = int (Suc i + j) \<and> lastUsed (ls ! j) = oldestTime res
               \<and> oldestTime res < oldestTime r' \<and> (\<forall>k<j. oldestTime res < lastUsed (ls ! k)))"
    by (simp_all add: Let_def res_def)
  have r'o: "oldestTime r' = (if lastUsed l < oldestTime r then lastUsed l else oldestTime r)"
    and r'e: "evictIndex r' = (if lastUsed l < oldestTime r then int i else evictIndex r)"
    by (simp_all add: r'_def evict_note_line)
  have le': "oldestTime res \<le> oldestTime r'" using IH2 by auto
  have A: "\<forall>x \<in> set (l # ls). oldestTime res \<le> lastUsed x"
    using IH1 le' r'o by (auto split: if_splits)
  have B: "(oldestTime res = oldestTime r \<and> evictIndex res = evictIndex r)
         \<or> (\<exists>j<length (l # ls). evictIndex res = int (i + j) \<and> lastUsed ((l # ls) ! j) = oldestTime res
               \<and> oldestTime res < oldestTime r \<and> (\<forall>k<j. oldestTime res < lastUsed ((l # ls) ! k)))"
    using IH2
  proof
    assume a: "oldestTime res = oldestTime r' \<and> evictIndex res = evictIndex r'"
    show ?thesis
    proof (cases "lastUsed l < oldestTime r")
      case True
      with a r'o r'e have "evictIndex res = int (i + 0) \<and> lastUsed ((l # ls) ! 0) = oldestTime res
               \<and> oldestTime res < oldestTime r" by simp
      then show ?thesis by (intro disjI2 exI [of _ 0]) simp
    next
      case False
      with a r'o r'e show ?thesis by simp
    qed
  next
    assume "\<exists>j<length ls. evictIndex res = int (Suc i + j) \<and> lastUsed (ls ! j) = oldestTime res
               \<and> oldestTime res < oldestTime r' \<and> (\<forall>k<j. oldestTime res < lastUsed (ls ! k))"
    then obtain j where j: "j < length ls" "evictIndex res = int (Suc i + j)"
      "lastUsed (ls ! j) = oldestTime res" "oldestTime res < oldestTime r'"
      "\<forall>k<j. oldestTime res < lastUsed (ls ! k)" by blast
    from j(4) r'o have lt: "oldestTime res < oldestTime r" "oldestTime res < lastUsed l \<or> \<not> lastUsed l < oldestTime r"
      by (auto split: if_splits)
    then have lt2: "oldestTime res < lastUsed l" by auto
    have "\<forall>k<Suc j. oldestTime res < lastUsed ((l # ls) ! k)"
      using j(5) lt2 by (auto simp: less_Suc_eq_0_disj)
    with j lt(1) show ?thesis
      by (intro disjI2 exI [of _ "Suc j"]) simp
  qed
  from A B show ?case unfolding res by (simp add: Let_def)
qed

lemma scan_init_victim:
  assumes "\<not> resident ls tg" "ls \<noteq> []"
  shows "\<exists>j. is_victim ls j \<and> evictIndex (scan ls tg 0 scan_init) = int j"
proof -
  define res where "res = scan ls tg 0 scan_init"
  from scan_evict [OF assms(1), of 0 scan_init]
  have A: "\<forall>l \<in> set ls. oldestTime res \<le> lastUsed l"
    and B: "(oldestTime res = - 1 \<and> evictIndex res = 0)
         \<or> (\<exists>j<length ls. evictIndex res = int j \<and> lastUsed (ls ! j) = oldestTime res
               \<and> (\<forall>k<j. oldestTime res < lastUsed (ls ! k)))"
    by (auto simp: Let_def res_def scan_init_def)
  from B show ?thesis
  proof
    assume b: "oldestTime res = - 1 \<and> evictIndex res = 0"
    with A have "\<forall>l \<in> set ls. lastUsed l = - 1"
      by (metis word_order.extremum_unique)
    with assms(2) have "is_victim ls 0" by (auto simp: is_victim_def)
    with b show ?thesis unfolding res_def by auto
  next
    assume "\<exists>j<length ls. evictIndex res = int j \<and> lastUsed (ls ! j) = oldestTime res
               \<and> (\<forall>k<j. oldestTime res < lastUsed (ls ! k))"
    then obtain j where j: "j < length ls" "evictIndex res = int j" "lastUsed (ls ! j) = oldestTime res"
      "\<forall>k<j. oldestTime res < lastUsed (ls ! k)" by blast
    with A have "is_victim ls j" by (auto simp: is_victim_def)
    with j(2) show ?thesis unfolding res_def by auto
  qed
qed

lemma is_hit_at_unique: "is_hit_at ls tg j \<Longrightarrow> is_hit_at ls tg k \<Longrightarrow> j = k"
  unfolding is_hit_at_def by (metis linorder_neqE_nat)

lemma is_first_empty_unique: "is_first_empty ls j \<Longrightarrow> is_first_empty ls k \<Longrightarrow> j = k"
  unfolding is_first_empty_def by (metis linorder_neqE_nat)

lemma is_victim_unique: "is_victim ls j \<Longrightarrow> is_victim ls k \<Longrightarrow> j = k"
  unfolding is_victim_def by (metis linorder_neqE_nat not_le)

lemma is_target_unique: "is_target ls j \<Longrightarrow> is_target ls k \<Longrightarrow> j = k"
  unfolding is_target_def by (auto split: if_splits dest: is_victim_unique is_first_empty_unique)

lemma scan_hit:
  assumes "resident ls tg"
  shows "\<exists>j. is_hit_at ls tg j \<and> hit (scan ls tg 0 scan_init)
            \<and> hitIndex (scan ls tg 0 scan_init) = int j"
  using scan_hitIndex [OF assms, of 0 scan_init] assms by (auto simp: scan_hit_iff)

lemma scan_miss:
  assumes "\<not> resident ls tg" "ls \<noteq> []"
  shows "\<exists>j. is_target ls j \<and> \<not> hit (scan ls tg 0 scan_init)
            \<and> target (scan ls tg 0 scan_init) = int j
            \<and> (emptyIndex (scan ls tg 0 scan_init) = - 1 \<longleftrightarrow> (\<forall>l \<in> set ls. valid l))
            \<and> ((\<forall>l \<in> set ls. valid l) \<longrightarrow> evictIndex (scan ls tg 0 scan_init) = int j)"
proof -
  define r where "r = scan ls tg 0 scan_init"
  have nh: "\<not> hit r" using assms(1) by (simp add: r_def scan_hit_iff scan_init_def)
  from scan_init_victim [OF assms] obtain v where v: "is_victim ls v" "evictIndex r = int v"
    unfolding r_def by blast
  have e0: "emptyIndex scan_init = - 1" by (simp add: scan_init_def)
  note E = scan_emptyIndex [OF assms(1) e0, of 0, folded r_def]
  show ?thesis
  proof (cases "\<forall>l \<in> set ls. valid l")
    case True
    with E have "emptyIndex r = - 1" by simp
    with v True nh show ?thesis
      unfolding r_def [symmetric] by (auto simp: target_def is_target_def)
  next
    case False
    with E obtain j where j: "is_first_empty ls j" "emptyIndex r = int j" by auto
    with False nh show ?thesis
      unfolding r_def [symmetric] by (auto simp: target_def is_target_def)
  qed
qed

lemma is_hit_at_less: "is_hit_at ls tg j \<Longrightarrow> j < length ls"
  by (simp add: is_hit_at_def)

lemma is_target_less: "is_target ls j \<Longrightarrow> j < length ls"
  by (auto simp: is_target_def is_victim_def is_first_empty_def split: if_splits)

section \<open>The outcome of one access\<close>

lemma access_load_hit:
  assumes s: "s < length (cache st)" and len: "length (cache st ! s) = nat (sint (blocksPerSet cfg))"
    and res: "resident (cache st ! s) tg"
  shows "\<exists>j. is_hit_at (cache st ! s) tg j \<and>
     access cfg ''l'' s tg st =
       Inr (st\<lparr>cache := (if useLRU cfg
                          then (cache st)[s := (cache st ! s)[j := (cache st ! s ! j)\<lparr>lastUsed := timeCounter st + 1\<rparr>]]
                          else cache st),
               totalLoads := totalLoads st + 1, loadHits := loadHits st + 1,
               cycles := cycles st + 1, timeCounter := timeCounter st + 1\<rparr>)"
proof -
  from scan_hit [OF res] obtain j where j: "is_hit_at (cache st ! s) tg j"
    "hit (scan (cache st ! s) tg 0 scan_init)" "hitIndex (scan (cache st ! s) tg 0 scan_init) = int j"
    by blast
  from j(1) have jl: "j < length (cache st ! s)" by (rule is_hit_at_less)
  show ?thesis
    using j s len jl
    by (intro exI [of _ j]) (simp add: access_def load_def write_line_def Let_def)
qed

lemma access_load_miss:
  assumes s: "s < length (cache st)" and len: "length (cache st ! s) = nat (sint (blocksPerSet cfg))"
    and ne: "cache st ! s \<noteq> []"
    and res: "\<not> resident (cache st ! s) tg"
  shows "\<exists>j. is_target (cache st ! s) j \<and>
     access cfg ''l'' s tg st =
       Inr (st\<lparr>cache := (cache st)[s := (cache st ! s)[j := (cache st ! s ! j)
                     \<lparr>valid := True, tag := tg, lastUsed := timeCounter st + 1, dirty := False\<rparr>]],
               totalLoads := totalLoads st + 1, loadMisses := loadMisses st + 1,
               cycles := cycles st + to_ulong (block_cost cfg + 1)
                  + (if (\<forall>l \<in> set (cache st ! s). valid l) \<and> writePolicy cfg = ''write-back''
                        \<and> dirty (cache st ! s ! j)
                     then to_ulong (block_cost cfg) else 0),
               timeCounter := timeCounter st + 1\<rparr>)"
proof -
  define r where "r = scan (cache st ! s) tg 0 scan_init"
  from scan_miss [OF res ne] obtain j where j: "is_target (cache st ! s) j"
    "\<not> hit r" "target r = int j" "emptyIndex r = - 1 \<longleftrightarrow> (\<forall>l \<in> set (cache st ! s). valid l)"
    "(\<forall>l \<in> set (cache st ! s). valid l) \<longrightarrow> evictIndex r = int j"
    unfolding r_def by blast
  from j(1) have jl: "j < length (cache st ! s)" by (rule is_target_less)
  show ?thesis
    using j s len jl
    by (intro exI [of _ j])
       (simp add: access_def load_def evict_penalty_def read_line_def and_then_def
          write_line_def Let_def r_def [symmetric])
qed

lemma access_store_hit:
  assumes s: "s < length (cache st)" and len: "length (cache st ! s) = nat (sint (blocksPerSet cfg))"
    and res: "resident (cache st ! s) tg"
  shows "\<exists>j. is_hit_at (cache st ! s) tg j \<and>
     access cfg ''s'' s tg st =
       Inr (st\<lparr>cache := (cache st)[s := (cache st ! s)[j := (cache st ! s ! j)
                     \<lparr>dirty := (if writePolicy cfg = ''write-through'' then dirty (cache st ! s ! j) else True),
                      lastUsed := (if useLRU cfg then timeCounter st + 1 else lastUsed (cache st ! s ! j))\<rparr>]],
               totalStores := totalStores st + 1, storeHits := storeHits st + 1,
               cycles := cycles st + (if writePolicy cfg = ''write-through'' then 101 else 1),
               timeCounter := timeCounter st + 1\<rparr>)"
proof -
  from scan_hit [OF res] obtain j where j: "is_hit_at (cache st ! s) tg j"
    "hit (scan (cache st ! s) tg 0 scan_init)" "hitIndex (scan (cache st ! s) tg 0 scan_init) = int j"
    by blast
  from j(1) have jl: "j < length (cache st ! s)" by (rule is_hit_at_less)
  have id: "(cache st)[s := (cache st ! s)[j := cache st ! s ! j]] = cache st"
    by simp
  show ?thesis
    using j s len jl
    by (intro exI [of _ j])
       (simp add: access_def store_def write_line_def and_then_def to_ulong_def Let_def)
qed

lemma access_store_miss_alloc:
  assumes s: "s < length (cache st)" and len: "length (cache st ! s) = nat (sint (blocksPerSet cfg))"
    and ne: "cache st ! s \<noteq> []"
    and res: "\<not> resident (cache st ! s) tg"
    and wa: "isWriteAlloc cfg"
  shows "\<exists>j. is_target (cache st ! s) j \<and>
     access cfg ''s'' s tg st =
       Inr (st\<lparr>cache := (cache st)[s := (cache st ! s)[j := (cache st ! s ! j)
                     \<lparr>valid := True, tag := tg, lastUsed := timeCounter st + 1,
                      dirty := (writePolicy cfg \<noteq> ''write-through'')\<rparr>]],
               totalStores := totalStores st + 1, storeMisses := storeMisses st + 1,
               cycles := cycles st + to_ulong (block_cost cfg)
                  + (if (\<forall>l \<in> set (cache st ! s). valid l) \<and> writePolicy cfg = ''write-back''
                        \<and> dirty (cache st ! s ! j)
                     then to_ulong (block_cost cfg) else 0)
                  + (if writePolicy cfg = ''write-through'' then 101 else 1),
               timeCounter := timeCounter st + 1\<rparr>)"
proof -
  define r where "r = scan (cache st ! s) tg 0 scan_init"
  from scan_miss [OF res ne] obtain j where j: "is_target (cache st ! s) j"
    "\<not> hit r" "target r = int j" "emptyIndex r = - 1 \<longleftrightarrow> (\<forall>l \<in> set (cache st ! s). valid l)"
    "(\<forall>l \<in> set (cache st ! s). valid l) \<longrightarrow> evictIndex r = int j"
    unfolding r_def by blast
  from j(1) have jl: "j < length (cache st ! s)" by (rule is_target_less)
  show ?thesis
    using j s len jl wa
    by (intro exI [of _ j])
       (simp add: access_def store_def evict_penalty_def read_line_def and_then_def
          write_line_def to_ulong_def Let_def r_def [symmetric])
qed

lemma access_store_miss_noalloc:
  assumes s: "s < length (cache st)" and len: "length (cache st ! s) = nat (sint (blocksPerSet cfg))"
    and res: "\<not> resident (cache st ! s) tg"
    and wa: "\<not> isWriteAlloc cfg"
  shows "access cfg ''s'' s tg st =
       Inr (st\<lparr>totalStores := totalStores st + 1, storeMisses := storeMisses st + 1,
               cycles := cycles st + 100, timeCounter := timeCounter st + 1\<rparr>)"
  using assms by (simp add: access_def store_def scan_hit_iff scan_init_def Let_def)

lemma access_other:
  assumes s: "s < length (cache st)" and len: "length (cache st ! s) = nat (sint (blocksPerSet cfg))"
    and "oper \<noteq> ''l''" "oper \<noteq> ''s''"
  shows "access cfg oper s tg st = Inr (st\<lparr>timeCounter := timeCounter st + 1\<rparr>)"
  using assms by (simp add: access_def Let_def)

section \<open>The effect on the set, and the first invariants\<close>

lemma next_set_length [simp]: "length (next_set cfg oper tg tc ls) = length ls"
  by (simp add: next_set_def Let_def)

lemma access_cache:
  assumes s: "s < length (cache st)" and len: "length (cache st ! s) = nat (sint (blocksPerSet cfg))"
    and ne: "cache st ! s \<noteq> []"
  shows "\<exists>st'. access cfg oper s tg st = Inr st'
           \<and> cache st' = (cache st)[s := next_set cfg oper tg (timeCounter st + 1) (cache st ! s)]
           \<and> timeCounter st' = timeCounter st + 1"
proof (cases "resident (cache st ! s) tg")
  case True
  from scan_hit [OF True] obtain j where j: "is_hit_at (cache st ! s) tg j"
    "hit (scan (cache st ! s) tg 0 scan_init)" "hitIndex (scan (cache st ! s) tg 0 scan_init) = int j"
    by blast
  from j(1) have jl: "j < length (cache st ! s)" by (rule is_hit_at_less)
  show ?thesis
    using j s len jl
    by (simp add: access_def load_def store_def write_line_def and_then_def next_set_def
          hit_line_def Let_def)
next
  case False
  define r where "r = scan (cache st ! s) tg 0 scan_init"
  from scan_miss [OF False ne] obtain j where j: "is_target (cache st ! s) j"
    "\<not> hit r" "target r = int j" "emptyIndex r = - 1 \<longleftrightarrow> (\<forall>l \<in> set (cache st ! s). valid l)"
    "(\<forall>l \<in> set (cache st ! s). valid l) \<longrightarrow> evictIndex r = int j"
    unfolding r_def by blast
  from j(1) have jl: "j < length (cache st ! s)" by (rule is_target_less)
  show ?thesis
    using j s len jl
    by (simp add: access_def load_def store_def evict_penalty_def read_line_def and_then_def
          write_line_def next_set_def install_line_def Let_def r_def [symmetric])
qed

lemma hit_line_simps [simp]:
  "valid (hit_line cfg oper tc l) = valid l"
  "tag (hit_line cfg oper tc l) = tag l"
  "lastUsed (hit_line cfg oper tc l) = (if useLRU cfg then tc else lastUsed l)"
  by (simp_all add: hit_line_def)

lemma install_line_simps [simp]:
  "valid (install_line cfg oper tg tc l) = True"
  "tag (install_line cfg oper tg tc l) = tg"
  "lastUsed (install_line cfg oper tg tc l) = tc"
  by (simp_all add: install_line_def)

lemma next_set_cases [consumes 1, case_names same hit install]:
  assumes ne: "ls \<noteq> []"
  obtains "next_set cfg oper tg tc ls = ls"
  | j where "is_hit_at ls tg j" "oper = ''l'' \<or> oper = ''s''"
      "next_set cfg oper tg tc ls = ls[j := hit_line cfg oper tc (ls ! j)]"
  | j where "\<not> resident ls tg" "is_target ls j" "oper = ''l'' \<or> oper = ''s'' \<and> isWriteAlloc cfg"
      "next_set cfg oper tg tc ls = ls[j := install_line cfg oper tg tc (ls ! j)]"
proof (cases "resident ls tg")
  case True
  from scan_hit [OF True] obtain j where j: "is_hit_at ls tg j"
    "hit (scan ls tg 0 scan_init)" "hitIndex (scan ls tg 0 scan_init) = int j"
    by blast
  show ?thesis
  proof (cases "oper = ''l'' \<or> oper = ''s''")
    case op: True
    with j have "next_set cfg oper tg tc ls = ls[j := hit_line cfg oper tc (ls ! j)]"
      by (auto simp: next_set_def Let_def)
    with j(1) op show ?thesis by (rule that(2))
  next
    case False
    then have "next_set cfg oper tg tc ls = ls" by (simp add: next_set_def Let_def)
    then show ?thesis by (rule that(1))
  qed
next
  case False
  from scan_miss [OF False ne] obtain j where j: "is_target ls j"
    "\<not> hit (scan ls tg 0 scan_init)" "target (scan ls tg 0 scan_init) = int j"
    by blast
  show ?thesis
  proof (cases "oper = ''l'' \<or> oper = ''s'' \<and> isWriteAlloc cfg")
    case op: True
    with j have "next_set cfg oper tg tc ls = ls[j := install_line cfg oper tg tc (ls ! j)]"
      by (auto simp: next_set_def Let_def)
    with False j(1) op show ?thesis by (rule that(3))
  next
    case nop: False
    with j have "next_set cfg oper tg tc ls = ls" by (auto simp: next_set_def Let_def)
    then show ?thesis by (rule that(1))
  qed
qed

lemma nth_update_hit_line [simp]:
  "i < length ls \<Longrightarrow> valid (ls[j := hit_line cfg oper tc (ls ! j)] ! i) = valid (ls ! i)"
  "i < length ls \<Longrightarrow> tag (ls[j := hit_line cfg oper tc (ls ! j)] ! i) = tag (ls ! i)"
  by (cases "i = j"; simp)+

lemma next_set_distinct_tags:
  assumes "distinct_tags ls" "ls \<noteq> []"
  shows "distinct_tags (next_set cfg oper tg tc ls)"
  using assms(2)
proof (cases rule: next_set_cases [where cfg = cfg and oper = oper and tg = tg and tc = tc])
  case same
  with assms show ?thesis by simp
next
  case (hit j)
  with assms(1) show ?thesis
    by (simp add: distinct_tags_def)
next
  case (install j)
  from install(1) have nr: "\<And>i. i < length ls \<Longrightarrow> valid (ls ! i) \<Longrightarrow> tag (ls ! i) \<noteq> tg"
    by (auto simp: resident_def)
  show ?thesis
    unfolding install(4) distinct_tags_def
  proof (intro allI impI)
    fix i k
    assume i: "i < length (ls[j := install_line cfg oper tg tc (ls ! j)])"
      and k: "k < length (ls[j := install_line cfg oper tg tc (ls ! j)])"
      and h: "i \<noteq> k \<and> valid (ls[j := install_line cfg oper tg tc (ls ! j)] ! i)
               \<and> valid (ls[j := install_line cfg oper tg tc (ls ! j)] ! k)"
    show "tag (ls[j := install_line cfg oper tg tc (ls ! j)] ! i)
            \<noteq> tag (ls[j := install_line cfg oper tg tc (ls ! j)] ! k)"
    proof (cases "i = j")
      case True
      with h have "k \<noteq> j" by auto
      with True i k h nr [of k] show ?thesis by (auto simp: nth_list_update)
    next
      case False
      show ?thesis
      proof (cases "k = j")
        case True
        with False i k h nr [of i] show ?thesis by (auto simp: nth_list_update)
      next
        case kj: False
        with False i k h assms(1) show ?thesis
          by (auto simp: nth_list_update distinct_tags_def)
      qed
    qed
  qed
qed

lemma access_counts:
  assumes s: "s < length (cache st)" and len: "length (cache st ! s) = nat (sint (blocksPerSet cfg))"
    and ne: "cache st ! s \<noteq> []"
    and acc: "access cfg oper s tg st = Inr st'"
    and ok: "counts_ok st"
  shows "counts_ok st'"
proof (cases "resident (cache st ! s) tg")
  case True
  from scan_hit [OF True] obtain j where j: "is_hit_at (cache st ! s) tg j"
    "hit (scan (cache st ! s) tg 0 scan_init)" "hitIndex (scan (cache st ! s) tg 0 scan_init) = int j"
    by blast
  from j(1) have jl: "j < length (cache st ! s)" by (rule is_hit_at_less)
  show ?thesis
    using j s len jl acc ok
    by (auto simp: access_def load_def store_def write_line_def and_then_def counts_ok_def
          Let_def split: if_splits)
next
  case False
  define r where "r = scan (cache st ! s) tg 0 scan_init"
  from scan_miss [OF False ne] obtain j where j: "is_target (cache st ! s) j"
    "\<not> hit r" "target r = int j" "emptyIndex r = - 1 \<longleftrightarrow> (\<forall>l \<in> set (cache st ! s). valid l)"
    "(\<forall>l \<in> set (cache st ! s). valid l) \<longrightarrow> evictIndex r = int j"
    unfolding r_def by blast
  from j(1) have jl: "j < length (cache st ! s)" by (rule is_target_less)
  show ?thesis
    using j s len jl acc ok
    by (auto simp: access_def load_def store_def evict_penalty_def read_line_def and_then_def
          write_line_def counts_ok_def Let_def r_def [symmetric] split: if_splits)
qed

lemma validate_None:
  assumes "validate cfg = None"
  shows "isPowerOfTwo (numSets cfg)" "isPowerOfTwo (blocksPerSet cfg)" "isPowerOfTwo (blockSize cfg)"
    "\<not> blockSize cfg <s 4"
    "\<not> (writeAlloc cfg = ''no-write-allocate'' \<and> writePolicy cfg = ''write-back'')"
  using assms by (simp_all add: validate_def split: if_splits)

lemma isPowerOfTwo_pos: "isPowerOfTwo n \<Longrightarrow> 0 < nat (sint n)"
  by (simp add: isPowerOfTwo_def word_sless_alt)

lemma shape_init: "shape cfg (init_sim l cfg)"
  by (simp add: shape_def init_sim_def)

lemma shape_set:
  assumes "validate cfg = None" "shape cfg st"
  shows "unat (setIndex cfg addr) < length (cache st)"
    and "length (cache st ! unat (setIndex cfg addr)) = nat (sint (blocksPerSet cfg))"
    and "cache st ! unat (setIndex cfg addr) \<noteq> []"
proof -
  from setIndex_less [OF validate_None(1) [OF assms(1)]] assms(2)
  show a: "unat (setIndex cfg addr) < length (cache st)" by (simp add: shape_def)
  with assms(2) show b: "length (cache st ! unat (setIndex cfg addr)) = nat (sint (blocksPerSet cfg))"
    by (simp add: shape_def)
  from isPowerOfTwo_pos [OF validate_None(2) [OF assms(1)]] b
  show "cache st ! unat (setIndex cfg addr) \<noteq> []" by auto
qed

lemma all_set_update:
  assumes "\<forall>x \<in> set xs. P x" "P y"
  shows "\<forall>x \<in> set (xs[i := y]). P x"
  using assms set_update_subset_insert [of xs i y] by auto

lemma step_cache:
  assumes v: "validate cfg = None" and sh: "shape cfg st"
  shows "\<exists>st'. step cfg a st = Inr st' \<and> shape cfg st'
           \<and> cache st' = (cache st)[unat (setIndex cfg (snd a)) :=
                 next_set cfg (fst a) (tag_of cfg (snd a)) (timeCounter st + 1)
                   (cache st ! unat (setIndex cfg (snd a)))]
           \<and> timeCounter st' = timeCounter st + 1"
proof -
  note S = shape_set [OF v sh, of "snd a"]
  from access_cache [OF S, of "fst a" "tag_of cfg (snd a)"]
  obtain st' where st': "access cfg (fst a) (unat (setIndex cfg (snd a))) (tag_of cfg (snd a)) st = Inr st'"
    "cache st' = (cache st)[unat (setIndex cfg (snd a)) :=
                 next_set cfg (fst a) (tag_of cfg (snd a)) (timeCounter st + 1)
                   (cache st ! unat (setIndex cfg (snd a)))]"
    "timeCounter st' = timeCounter st + 1" by blast
  have "\<forall>ls \<in> set (cache st'). length ls = nat (sint (blocksPerSet cfg))"
    unfolding st'(2) using sh S(2) by (intro all_set_update) (simp_all add: shape_def)
  with sh have "shape cfg st'"
    by (simp add: shape_def st'(2))
  with st' show ?thesis by (simp add: step_def)
qed

lemma step_inv1:
  assumes v: "validate cfg = None" and i: "inv1 cfg st" and st: "step cfg a st = Inr st'"
  shows "inv1 cfg st'"
proof -
  from i have sh: "shape cfg st" by (simp add: inv1_def)
  note S = shape_set [OF v sh, of "snd a"]
  from step_cache [OF v sh, of a] st
  have sh': "shape cfg st'" and c: "cache st' = (cache st)[unat (setIndex cfg (snd a)) :=
                 next_set cfg (fst a) (tag_of cfg (snd a)) (timeCounter st + 1)
                   (cache st ! unat (setIndex cfg (snd a)))]" by auto
  from i have "counts_ok st" by (simp add: inv1_def)
  with access_counts [OF S] st have co: "counts_ok st'" by (simp add: step_def)
  from i S(1) have "distinct_tags (cache st ! unat (setIndex cfg (snd a)))"
    by (simp add: inv1_def)
  then have "distinct_tags (next_set cfg (fst a) (tag_of cfg (snd a)) (timeCounter st + 1)
                   (cache st ! unat (setIndex cfg (snd a))))"
    using S(3) by (rule next_set_distinct_tags)
  with i have "\<forall>ls \<in> set (cache st'). distinct_tags ls"
    unfolding c inv1_def by (intro all_set_update) simp_all
  with sh' co show ?thesis by (simp add: inv1_def)
qed

lemma inv1_init: "inv1 cfg (init_sim new_line cfg)"
  by (simp add: inv1_def shape_init) (simp add: init_sim_def counts_ok_def distinct_tags_def new_line_def)

lemma run_from_append:
  "run_from cfg (t @ u) st = and_then (run_from cfg t st) (run_from cfg u)"
  by (induction t arbitrary: st) (auto simp: and_then_def split: sum.splits)

lemma run_inv1:
  assumes v: "validate cfg = None"
  shows "inv1 cfg st \<Longrightarrow> \<exists>st'. run_from cfg t st = Inr st' \<and> inv1 cfg st'"
proof (induction t arbitrary: st)
  case Nil
  then show ?case by simp
next
  case (Cons a t)
  from Cons.prems have "shape cfg st" by (simp add: inv1_def)
  from step_cache [OF v this, of a] obtain st1 where st1: "step cfg a st = Inr st1" by blast
  from step_inv1 [OF v Cons.prems st1] have "inv1 cfg st1" .
  from Cons.IH [OF this] st1 show ?case by (simp add: and_then_def)
qed

section \<open>Reached states\<close>

lemmas model_defs = simulate_def validate_def isPowerOfTwo_def init_sim_def new_line_def step_def
  access_def load_def store_def scan_init_def note_line_def evict_penalty_def and_then_def
  write_line_def read_line_def target_def block_cost_def int_div_def to_ulong_def useLRU_def
  isWriteAlloc_def setIndex_def tag_of_def blockOffsetBits_def setBits_def log2.simps Let_def
  word_sless_alt

lemma reach_inv1:
  assumes "validate cfg = None" "run_from cfg t (init_sim new_line cfg) = Inr st"
  shows "inv1 cfg st"
  using run_inv1 [OF assms(1) inv1_init, of t] assms(2) by simp

lemma reach_set:
  assumes "validate cfg = None" "run_from cfg t (init_sim new_line cfg) = Inr st"
  shows "unat (setIndex cfg addr) < length (cache st)"
    and "length (cache st ! unat (setIndex cfg addr)) = nat (sint (blocksPerSet cfg))"
    and "cache st ! unat (setIndex cfg addr) \<noteq> []"
proof -
  from reach_inv1 [OF assms] have "shape cfg st" by (simp add: inv1_def)
  from shape_set [OF assms(1) this, of addr]
  show "unat (setIndex cfg addr) < length (cache st)"
    and "length (cache st ! unat (setIndex cfg addr)) = nat (sint (blocksPerSet cfg))"
    and "cache st ! unat (setIndex cfg addr) \<noteq> []" by simp_all
qed

section \<open>Store misses without write-allocate\<close>

text \<open>
  Claim C4. Under a validated configuration without write-allocate, a store that misses
  counts one store and one store miss, adds exactly 100 cycles and advances the time stamp
  counter; the cache itself, hence every field of every line of every set, is the same
  before and after. On the empty cache of the scenario configuration the store leaves no
  line installed, and a following load of the same address is a miss.
\<close>

theorem store_miss_no_write_allocate:
  "(validate cfg = None \<and> run_from cfg t (init_sim new_line cfg) = Inr st
      \<and> \<not> isWriteAlloc cfg
      \<and> \<not> resident (cache st ! unat (setIndex cfg addr)) (tag_of cfg addr)
    \<longrightarrow> step cfg (''s'', addr) st =
          Inr (st\<lparr>totalStores := totalStores st + 1, storeMisses := storeMisses st + 1,
                  cycles := cycles st + 100, timeCounter := timeCounter st + 1\<rparr>))
   \<and> simulate scenario_D_config [(''s'', 0)] =
       Inr ((init_sim new_line scenario_D_config)
              \<lparr>totalStores := 1, storeMisses := 1, cycles := 100, timeCounter := 1\<rparr>)
   \<and> (\<exists>st. simulate scenario_D_config [(''s'', 0), (''l'', 0)] = Inr st
          \<and> storeMisses st = 1 \<and> loadMisses st = 1 \<and> loadHits st = 0)"
proof (intro conjI impI)
  assume h: "validate cfg = None \<and> run_from cfg t (init_sim new_line cfg) = Inr st
      \<and> \<not> isWriteAlloc cfg
      \<and> \<not> resident (cache st ! unat (setIndex cfg addr)) (tag_of cfg addr)"
  then have v: "validate cfg = None" and r: "run_from cfg t (init_sim new_line cfg) = Inr st"
    by simp_all
  note S = reach_set [OF v r, of addr]
  from access_store_miss_noalloc [OF S(1) S(2)] h
  show "step cfg (''s'', addr) st =
          Inr (st\<lparr>totalStores := totalStores st + 1, storeMisses := storeMisses st + 1,
                  cycles := cycles st + 100, timeCounter := timeCounter st + 1\<rparr>)"
    by (simp add: step_def)
next
  show "simulate scenario_D_config [(''s'', 0)] =
       Inr ((init_sim new_line scenario_D_config)
              \<lparr>totalStores := 1, storeMisses := 1, cycles := 100, timeCounter := 1\<rparr>)"
    by (simp add: scenario_D_config_def model_defs)
next
  show "\<exists>st. simulate scenario_D_config [(''s'', 0), (''l'', 0)] = Inr st
          \<and> storeMisses st = 1 \<and> loadMisses st = 1 \<and> loadHits st = 0"
    by (simp add: scenario_D_config_def model_defs)
qed

theorem store_miss_no_write_allocate_witness:
  "validate scenario_D_config = None
   \<and> run_from scenario_D_config [] (init_sim new_line scenario_D_config)
       = Inr (init_sim new_line scenario_D_config)
   \<and> \<not> isWriteAlloc scenario_D_config
   \<and> \<not> resident (cache (init_sim new_line scenario_D_config) ! unat (setIndex scenario_D_config 0))
         (tag_of scenario_D_config 0)
   \<and> step scenario_D_config (''s'', 0) (init_sim new_line scenario_D_config) =
       Inr ((init_sim new_line scenario_D_config)
              \<lparr>totalStores := 1, storeMisses := 1, cycles := 100, timeCounter := 1\<rparr>)"
proof -
  have h: "validate scenario_D_config = None
     \<and> run_from scenario_D_config [] (init_sim new_line scenario_D_config)
         = Inr (init_sim new_line scenario_D_config)
     \<and> \<not> isWriteAlloc scenario_D_config
     \<and> \<not> resident (cache (init_sim new_line scenario_D_config) ! unat (setIndex scenario_D_config 0))
           (tag_of scenario_D_config 0)"
    by (simp add: scenario_D_config_def model_defs resident_def)
  from store_miss_no_write_allocate
         [of scenario_D_config "[]" "init_sim new_line scenario_D_config" 0, THEN conjunct1, rule_format, OF h]
  have "step scenario_D_config (''s'', 0) (init_sim new_line scenario_D_config) =
       Inr ((init_sim new_line scenario_D_config)
              \<lparr>totalStores := totalStores (init_sim new_line scenario_D_config) + 1,
               storeMisses := storeMisses (init_sim new_line scenario_D_config) + 1,
               cycles := cycles (init_sim new_line scenario_D_config) + 100,
               timeCounter := timeCounter (init_sim new_line scenario_D_config) + 1\<rparr>)" .
  then have "step scenario_D_config (''s'', 0) (init_sim new_line scenario_D_config) =
       Inr ((init_sim new_line scenario_D_config)
              \<lparr>totalStores := 1, storeMisses := 1, cycles := 100, timeCounter := 1\<rparr>)"
    by (simp add: init_sim_def)
  with h show ?thesis by blast
qed

section \<open>Loads\<close>

lemma scan_classifies: "hit (scan ls tg 0 scan_init) \<longleftrightarrow> resident ls tg"
  by (simp add: scan_hit_iff scan_init_def)

text \<open>
  Loads in general. In every state reached under a validated configuration, a load is a hit
  exactly when the scan finds a valid line of its set with its tag. A hit counts one load
  and one load hit, adds exactly 1 cycle and, under LRU only, stamps the hit line with the
  advanced time stamp counter. A miss counts one load and one load miss, adds the value
  that the program computes for \<^verbatim>\<open>100 * (blockSize / 4) + 1\<close>, an \<^verbatim>\<open>int\<close> converted
  to \<^verbatim>\<open>unsigned long\<close> (and the eviction penalty where it applies), and overwrites the
  insertion target with a valid, clean line holding the tag and the advanced counter.
  Nothing else changes. Scenario A: two loads of address 0 on the scenario configuration
  give one miss, one hit, two loads and 102 cycles.
\<close>

lemma load_access:
  "(validate cfg = None \<and> run_from cfg t (init_sim new_line cfg) = Inr st \<longrightarrow>
      (let s = unat (setIndex cfg addr); tg = tag_of cfg addr; ls = cache st ! s in
         (hit (scan ls tg 0 scan_init) \<longleftrightarrow> resident ls tg)
       \<and> (resident ls tg \<longrightarrow>
            (\<exists>j. is_hit_at ls tg j \<and>
               step cfg (''l'', addr) st =
                 Inr (st\<lparr>cache := (if useLRU cfg
                                    then (cache st)[s := ls[j := (ls ! j)\<lparr>lastUsed := timeCounter st + 1\<rparr>]]
                                    else cache st),
                         totalLoads := totalLoads st + 1, loadHits := loadHits st + 1,
                         cycles := cycles st + 1, timeCounter := timeCounter st + 1\<rparr>)))
       \<and> (\<not> resident ls tg \<longrightarrow>
            (\<exists>j. is_target ls j \<and>
               step cfg (''l'', addr) st =
                 Inr (st\<lparr>cache := (cache st)[s := ls[j := (ls ! j)
                               \<lparr>valid := True, tag := tg, lastUsed := timeCounter st + 1, dirty := False\<rparr>]],
                         totalLoads := totalLoads st + 1, loadMisses := loadMisses st + 1,
                         cycles := cycles st + to_ulong (100 * int_div (blockSize cfg) 4 + 1)
                            + (if (\<forall>l \<in> set ls. valid l) \<and> writePolicy cfg = ''write-back''
                                  \<and> dirty (ls ! j)
                               then to_ulong (100 * int_div (blockSize cfg) 4) else 0),
                         timeCounter := timeCounter st + 1\<rparr>)))))
   \<and> (\<exists>st. simulate scenario_config [(''l'', 0), (''l'', 0)] = Inr st
          \<and> loadMisses st = 1 \<and> loadHits st = 1 \<and> totalLoads st = 2 \<and> cycles st = 102)"
proof (intro conjI impI)
  assume h: "validate cfg = None \<and> run_from cfg t (init_sim new_line cfg) = Inr st"
  note S = reach_set [OF h [THEN conjunct1] h [THEN conjunct2], of addr]
  show "let s = unat (setIndex cfg addr); tg = tag_of cfg addr; ls = cache st ! s in
         (hit (scan ls tg 0 scan_init) \<longleftrightarrow> resident ls tg)
       \<and> (resident ls tg \<longrightarrow>
            (\<exists>j. is_hit_at ls tg j \<and>
               step cfg (''l'', addr) st =
                 Inr (st\<lparr>cache := (if useLRU cfg
                                    then (cache st)[s := ls[j := (ls ! j)\<lparr>lastUsed := timeCounter st + 1\<rparr>]]
                                    else cache st),
                         totalLoads := totalLoads st + 1, loadHits := loadHits st + 1,
                         cycles := cycles st + 1, timeCounter := timeCounter st + 1\<rparr>)))
       \<and> (\<not> resident ls tg \<longrightarrow>
            (\<exists>j. is_target ls j \<and>
               step cfg (''l'', addr) st =
                 Inr (st\<lparr>cache := (cache st)[s := ls[j := (ls ! j)
                               \<lparr>valid := True, tag := tg, lastUsed := timeCounter st + 1, dirty := False\<rparr>]],
                         totalLoads := totalLoads st + 1, loadMisses := loadMisses st + 1,
                         cycles := cycles st + to_ulong (100 * int_div (blockSize cfg) 4 + 1)
                            + (if (\<forall>l \<in> set ls. valid l) \<and> writePolicy cfg = ''write-back''
                                  \<and> dirty (ls ! j)
                               then to_ulong (100 * int_div (blockSize cfg) 4) else 0),
                         timeCounter := timeCounter st + 1\<rparr>)))"
    unfolding Let_def
  proof (intro conjI impI)
    show "hit (scan (cache st ! unat (setIndex cfg addr)) (tag_of cfg addr) 0 scan_init)
            \<longleftrightarrow> resident (cache st ! unat (setIndex cfg addr)) (tag_of cfg addr)"
      by (rule scan_classifies)
  next
    assume "resident (cache st ! unat (setIndex cfg addr)) (tag_of cfg addr)"
    from access_load_hit [OF S(1) S(2) this]
    show "\<exists>j. is_hit_at (cache st ! unat (setIndex cfg addr)) (tag_of cfg addr) j \<and>
       step cfg (''l'', addr) st =
         Inr (st\<lparr>cache := (if useLRU cfg
                  then (cache st)[unat (setIndex cfg addr) := (cache st ! unat (setIndex cfg addr))
                         [j := (cache st ! unat (setIndex cfg addr) ! j)\<lparr>lastUsed := timeCounter st + 1\<rparr>]]
                  else cache st),
                 totalLoads := totalLoads st + 1, loadHits := loadHits st + 1,
                 cycles := cycles st + 1, timeCounter := timeCounter st + 1\<rparr>)"
      unfolding step_def fst_conv snd_conv .
  next
    assume "\<not> resident (cache st ! unat (setIndex cfg addr)) (tag_of cfg addr)"
    from access_load_miss [OF S(1) S(2) S(3) this, unfolded block_cost_def]
    show "\<exists>j. is_target (cache st ! unat (setIndex cfg addr)) j \<and>
       step cfg (''l'', addr) st =
         Inr (st\<lparr>cache := (cache st)[unat (setIndex cfg addr) := (cache st ! unat (setIndex cfg addr))
                    [j := (cache st ! unat (setIndex cfg addr) ! j)
                       \<lparr>valid := True, tag := tag_of cfg addr, lastUsed := timeCounter st + 1, dirty := False\<rparr>]],
                 totalLoads := totalLoads st + 1, loadMisses := loadMisses st + 1,
                 cycles := cycles st + to_ulong (100 * int_div (blockSize cfg) 4 + 1)
                    + (if (\<forall>l \<in> set (cache st ! unat (setIndex cfg addr)). valid l)
                          \<and> writePolicy cfg = ''write-back''
                          \<and> dirty (cache st ! unat (setIndex cfg addr) ! j)
                       then to_ulong (100 * int_div (blockSize cfg) 4) else 0),
                 timeCounter := timeCounter st + 1\<rparr>)"
      unfolding step_def fst_conv snd_conv .
  qed
next
  show "\<exists>st. simulate scenario_config [(''l'', 0), (''l'', 0)] = Inr st
          \<and> loadMisses st = 1 \<and> loadHits st = 1 \<and> totalLoads st = 2 \<and> cycles st = 102"
    by (simp add: scenario_config_def model_defs)
qed

text \<open>The lemma at the first load of scenario A: on the empty cache the load misses, and
  the only line becomes the valid, clean line of tag 0 stamped 1, for 101 cycles.\<close>

lemma load_access_at_scenario:
  "validate scenario_config = None
   \<and> run_from scenario_config [] (init_sim new_line scenario_config)
       = Inr (init_sim new_line scenario_config)
   \<and> \<not> resident (cache (init_sim new_line scenario_config) ! unat (setIndex scenario_config 0))
         (tag_of scenario_config 0)
   \<and> step scenario_config (''l'', 0) (init_sim new_line scenario_config) =
       Inr ((init_sim new_line scenario_config)
              \<lparr>cache := [[\<lparr>valid = True, dirty = False, tag = 0, lastUsed = 1\<rparr>]],
               totalLoads := 1, loadMisses := 1, cycles := 101, timeCounter := 1\<rparr>)"
proof -
  have h: "validate scenario_config = None
     \<and> run_from scenario_config [] (init_sim new_line scenario_config)
         = Inr (init_sim new_line scenario_config)"
    by (simp add: scenario_config_def model_defs)
  have n: "\<not> resident (cache (init_sim new_line scenario_config) ! unat (setIndex scenario_config 0))
         (tag_of scenario_config 0)"
    by (simp add: scenario_config_def model_defs resident_def)
  from load_access [of scenario_config "[]" "init_sim new_line scenario_config" 0,
         THEN conjunct1, rule_format, OF h]
  have "\<exists>j. is_target (cache (init_sim new_line scenario_config) ! unat (setIndex scenario_config 0)) j \<and>
     step scenario_config (''l'', 0) (init_sim new_line scenario_config) =
       Inr ((init_sim new_line scenario_config)
          \<lparr>cache := (cache (init_sim new_line scenario_config))
             [unat (setIndex scenario_config 0) :=
               (cache (init_sim new_line scenario_config) ! unat (setIndex scenario_config 0))
               [j := (cache (init_sim new_line scenario_config) ! unat (setIndex scenario_config 0) ! j)
                  \<lparr>valid := True, tag := tag_of scenario_config 0,
                   lastUsed := timeCounter (init_sim new_line scenario_config) + 1, dirty := False\<rparr>]],
           totalLoads := totalLoads (init_sim new_line scenario_config) + 1,
           loadMisses := loadMisses (init_sim new_line scenario_config) + 1,
           cycles := cycles (init_sim new_line scenario_config)
              + to_ulong (100 * int_div (blockSize scenario_config) 4 + 1)
              + (if (\<forall>l \<in> set (cache (init_sim new_line scenario_config) ! unat (setIndex scenario_config 0)). valid l)
                    \<and> writePolicy scenario_config = ''write-back''
                    \<and> dirty (cache (init_sim new_line scenario_config) ! unat (setIndex scenario_config 0) ! j)
                 then to_ulong (100 * int_div (blockSize scenario_config) 4) else 0),
           timeCounter := timeCounter (init_sim new_line scenario_config) + 1\<rparr>)"
    using n by (simp add: Let_def)
  then obtain j where j: "is_target (cache (init_sim new_line scenario_config) ! unat (setIndex scenario_config 0)) j"
    and st: "step scenario_config (''l'', 0) (init_sim new_line scenario_config) =
       Inr ((init_sim new_line scenario_config)
          \<lparr>cache := (cache (init_sim new_line scenario_config))
             [unat (setIndex scenario_config 0) :=
               (cache (init_sim new_line scenario_config) ! unat (setIndex scenario_config 0))
               [j := (cache (init_sim new_line scenario_config) ! unat (setIndex scenario_config 0) ! j)
                  \<lparr>valid := True, tag := tag_of scenario_config 0,
                   lastUsed := timeCounter (init_sim new_line scenario_config) + 1, dirty := False\<rparr>]],
           totalLoads := totalLoads (init_sim new_line scenario_config) + 1,
           loadMisses := loadMisses (init_sim new_line scenario_config) + 1,
           cycles := cycles (init_sim new_line scenario_config)
              + to_ulong (100 * int_div (blockSize scenario_config) 4 + 1)
              + (if (\<forall>l \<in> set (cache (init_sim new_line scenario_config) ! unat (setIndex scenario_config 0)). valid l)
                    \<and> writePolicy scenario_config = ''write-back''
                    \<and> dirty (cache (init_sim new_line scenario_config) ! unat (setIndex scenario_config 0) ! j)
                 then to_ulong (100 * int_div (blockSize scenario_config) 4) else 0),
           timeCounter := timeCounter (init_sim new_line scenario_config) + 1\<rparr>)"
    by blast
  from j have "j = 0"
    by (simp add: scenario_config_def model_defs is_target_def is_first_empty_def)
  with st have "step scenario_config (''l'', 0) (init_sim new_line scenario_config) =
       Inr ((init_sim new_line scenario_config)
              \<lparr>cache := [[\<lparr>valid = True, dirty = False, tag = 0, lastUsed = 1\<rparr>]],
               totalLoads := 1, loadMisses := 1, cycles := 101, timeCounter := 1\<rparr>)"
    by (simp add: scenario_config_def init_sim_def new_line_def setIndex_def tag_of_def
          blockOffsetBits_def setBits_def log2.simps int_div_def to_ulong_def)
  with h n show ?thesis by blast
qed

text \<open>
  Claim C1. The claim gives every load miss the cost \<open>100 * (blockSize / 4) + 1\<close> under
  every valid configuration. The program computes this amount in \<^verbatim>\<open>int\<close> (line 126),
  and the validation admits block sizes up to \<open>2 ^ 30\<close>. Under the validated
  configuration of one set of one line with blocks of \<open>2 ^ 27\<close> bytes the claim's amount
  is 3355443201, which is outside the range of \<^verbatim>\<open>int\<close>: the load of address 0, a miss on
  the empty cache, is counted and installs its line as the claim says, but leaves the
  cycles at 18446744072770027521 (that is \<open>2 ^ 64 - 939524095\<close>) instead of 3355443201.
  The other parts of the claim hold under every validated configuration (lemma
  \<open>load_access\<close>), and the \<^verbatim>\<open>int\<close> expression has the claim's value when the block size
  is at most \<open>2 ^ 26\<close> (lemma \<open>block_cost_value\<close>).
\<close>

theorem load_miss_cost_overflow:
  "simulate big_block_config [(''l'', 0)] =
     Inr \<lparr>cache = [[\<lparr>valid = True, dirty = False, tag = 0, lastUsed = 1\<rparr>]],
          totalLoads = 1, totalStores = 0, loadHits = 0, loadMisses = 1,
          storeHits = 0, storeMisses = 0, cycles = 18446744072770027521, timeCounter = 1\<rparr>
   \<and> 100 * (sint (blockSize big_block_config) div 4) + 1 = 3355443201"
  by (simp add: big_block_config_def model_defs)

section \<open>Stores\<close>

text \<open>
  Stores in general. In every state reached under a validated configuration, a store that
  hits counts one store and one store hit; under write-through it adds 1 + 100 cycles and
  leaves the dirty bit of the hit line as it is, under any other write policy (write-back)
  it adds 1 cycle and sets the dirty bit; under LRU only, the hit line is stamped with the
  advanced counter. A store that misses under write-allocate counts one store and one store
  miss, adds the value that the program computes for \<^verbatim>\<open>100 * (blockSize / 4)\<close>, an
  \<^verbatim>\<open>int\<close> converted to \<^verbatim>\<open>unsigned long\<close> (and the eviction penalty where it applies),
  installs tag, valid bit and time stamp on the insertion target and then adds 1 + 100
  cycles with a clean line under write-through, 1 cycle with a dirty line otherwise.
  Scenario B: two stores to address 0 on the scenario configuration cost 101 cycles for the
  miss and 1 for the hit, 102 in all, and the line ends dirty.
\<close>

lemma store_access:
  "(validate cfg = None \<and> run_from cfg t (init_sim new_line cfg) = Inr st \<longrightarrow>
      (let s = unat (setIndex cfg addr); tg = tag_of cfg addr; ls = cache st ! s in
         (resident ls tg \<longrightarrow>
            (\<exists>j. is_hit_at ls tg j \<and>
               step cfg (''s'', addr) st =
                 Inr (st\<lparr>cache := (cache st)[s := ls[j := (ls ! j)
                               \<lparr>dirty := (if writePolicy cfg = ''write-through'' then dirty (ls ! j) else True),
                                lastUsed := (if useLRU cfg then timeCounter st + 1 else lastUsed (ls ! j))\<rparr>]],
                         totalStores := totalStores st + 1, storeHits := storeHits st + 1,
                         cycles := cycles st + (if writePolicy cfg = ''write-through'' then 101 else 1),
                         timeCounter := timeCounter st + 1\<rparr>)))
       \<and> (\<not> resident ls tg \<and> isWriteAlloc cfg \<longrightarrow>
            (\<exists>j. is_target ls j \<and>
               step cfg (''s'', addr) st =
                 Inr (st\<lparr>cache := (cache st)[s := ls[j := (ls ! j)
                               \<lparr>valid := True, tag := tg, lastUsed := timeCounter st + 1,
                                dirty := (writePolicy cfg \<noteq> ''write-through'')\<rparr>]],
                         totalStores := totalStores st + 1, storeMisses := storeMisses st + 1,
                         cycles := cycles st + to_ulong (100 * int_div (blockSize cfg) 4)
                            + (if (\<forall>l \<in> set ls. valid l) \<and> writePolicy cfg = ''write-back''
                                  \<and> dirty (ls ! j)
                               then to_ulong (100 * int_div (blockSize cfg) 4) else 0)
                            + (if writePolicy cfg = ''write-through'' then 101 else 1),
                         timeCounter := timeCounter st + 1\<rparr>)))))
   \<and> (\<exists>st1 st2. simulate scenario_config [(''s'', 0)] = Inr st1
          \<and> storeMisses st1 = 1 \<and> storeHits st1 = 0 \<and> cycles st1 = 101
          \<and> simulate scenario_config [(''s'', 0), (''s'', 0)] = Inr st2
          \<and> storeMisses st2 = 1 \<and> storeHits st2 = 1 \<and> cycles st2 = 102
          \<and> cache st2 = [[\<lparr>valid = True, dirty = True, tag = 0, lastUsed = 2\<rparr>]])"
proof (intro conjI impI)
  assume h: "validate cfg = None \<and> run_from cfg t (init_sim new_line cfg) = Inr st"
  note S = reach_set [OF h [THEN conjunct1] h [THEN conjunct2], of addr]
  show "let s = unat (setIndex cfg addr); tg = tag_of cfg addr; ls = cache st ! s in
         (resident ls tg \<longrightarrow>
            (\<exists>j. is_hit_at ls tg j \<and>
               step cfg (''s'', addr) st =
                 Inr (st\<lparr>cache := (cache st)[s := ls[j := (ls ! j)
                               \<lparr>dirty := (if writePolicy cfg = ''write-through'' then dirty (ls ! j) else True),
                                lastUsed := (if useLRU cfg then timeCounter st + 1 else lastUsed (ls ! j))\<rparr>]],
                         totalStores := totalStores st + 1, storeHits := storeHits st + 1,
                         cycles := cycles st + (if writePolicy cfg = ''write-through'' then 101 else 1),
                         timeCounter := timeCounter st + 1\<rparr>)))
       \<and> (\<not> resident ls tg \<and> isWriteAlloc cfg \<longrightarrow>
            (\<exists>j. is_target ls j \<and>
               step cfg (''s'', addr) st =
                 Inr (st\<lparr>cache := (cache st)[s := ls[j := (ls ! j)
                               \<lparr>valid := True, tag := tg, lastUsed := timeCounter st + 1,
                                dirty := (writePolicy cfg \<noteq> ''write-through'')\<rparr>]],
                         totalStores := totalStores st + 1, storeMisses := storeMisses st + 1,
                         cycles := cycles st + to_ulong (100 * int_div (blockSize cfg) 4)
                            + (if (\<forall>l \<in> set ls. valid l) \<and> writePolicy cfg = ''write-back''
                                  \<and> dirty (ls ! j)
                               then to_ulong (100 * int_div (blockSize cfg) 4) else 0)
                            + (if writePolicy cfg = ''write-through'' then 101 else 1),
                         timeCounter := timeCounter st + 1\<rparr>)))"
    unfolding Let_def
  proof (intro conjI impI)
    assume "resident (cache st ! unat (setIndex cfg addr)) (tag_of cfg addr)"
    from access_store_hit [OF S(1) S(2) this]
    show "\<exists>j. is_hit_at (cache st ! unat (setIndex cfg addr)) (tag_of cfg addr) j \<and>
       step cfg (''s'', addr) st =
         Inr (st\<lparr>cache := (cache st)[unat (setIndex cfg addr) := (cache st ! unat (setIndex cfg addr))
                    [j := (cache st ! unat (setIndex cfg addr) ! j)
                       \<lparr>dirty := (if writePolicy cfg = ''write-through''
                                  then dirty (cache st ! unat (setIndex cfg addr) ! j) else True),
                        lastUsed := (if useLRU cfg then timeCounter st + 1
                                     else lastUsed (cache st ! unat (setIndex cfg addr) ! j))\<rparr>]],
                 totalStores := totalStores st + 1, storeHits := storeHits st + 1,
                 cycles := cycles st + (if writePolicy cfg = ''write-through'' then 101 else 1),
                 timeCounter := timeCounter st + 1\<rparr>)"
      unfolding step_def fst_conv snd_conv .
  next
    assume a: "\<not> resident (cache st ! unat (setIndex cfg addr)) (tag_of cfg addr) \<and> isWriteAlloc cfg"
    from access_store_miss_alloc [OF S(1) S(2) S(3) a [THEN conjunct1] a [THEN conjunct2],
           unfolded block_cost_def]
    show "\<exists>j. is_target (cache st ! unat (setIndex cfg addr)) j \<and>
       step cfg (''s'', addr) st =
         Inr (st\<lparr>cache := (cache st)[unat (setIndex cfg addr) := (cache st ! unat (setIndex cfg addr))
                    [j := (cache st ! unat (setIndex cfg addr) ! j)
                       \<lparr>valid := True, tag := tag_of cfg addr, lastUsed := timeCounter st + 1,
                        dirty := (writePolicy cfg \<noteq> ''write-through'')\<rparr>]],
                 totalStores := totalStores st + 1, storeMisses := storeMisses st + 1,
                 cycles := cycles st + to_ulong (100 * int_div (blockSize cfg) 4)
                    + (if (\<forall>l \<in> set (cache st ! unat (setIndex cfg addr)). valid l)
                          \<and> writePolicy cfg = ''write-back''
                          \<and> dirty (cache st ! unat (setIndex cfg addr) ! j)
                       then to_ulong (100 * int_div (blockSize cfg) 4) else 0)
                    + (if writePolicy cfg = ''write-through'' then 101 else 1),
                 timeCounter := timeCounter st + 1\<rparr>)"
      unfolding step_def fst_conv snd_conv .
  qed
next
  show "\<exists>st1 st2. simulate scenario_config [(''s'', 0)] = Inr st1
          \<and> storeMisses st1 = 1 \<and> storeHits st1 = 0 \<and> cycles st1 = 101
          \<and> simulate scenario_config [(''s'', 0), (''s'', 0)] = Inr st2
          \<and> storeMisses st2 = 1 \<and> storeHits st2 = 1 \<and> cycles st2 = 102
          \<and> cache st2 = [[\<lparr>valid = True, dirty = True, tag = 0, lastUsed = 2\<rparr>]]"
    by (simp add: scenario_config_def model_defs)
qed

text \<open>The lemma at the first store of scenario B: on the empty cache the store misses and
  allocates; the only line becomes the valid, dirty line of tag 0 stamped 1, for 101 cycles.\<close>

lemma store_access_at_scenario:
  "validate scenario_config = None
   \<and> run_from scenario_config [] (init_sim new_line scenario_config)
       = Inr (init_sim new_line scenario_config)
   \<and> \<not> resident (cache (init_sim new_line scenario_config) ! unat (setIndex scenario_config 0))
         (tag_of scenario_config 0)
   \<and> isWriteAlloc scenario_config
   \<and> step scenario_config (''s'', 0) (init_sim new_line scenario_config) =
       Inr ((init_sim new_line scenario_config)
              \<lparr>cache := [[\<lparr>valid = True, dirty = True, tag = 0, lastUsed = 1\<rparr>]],
               totalStores := 1, storeMisses := 1, cycles := 101, timeCounter := 1\<rparr>)"
proof -
  let ?c = scenario_config
  let ?i = "init_sim new_line scenario_config"
  have h: "validate ?c = None \<and> run_from ?c [] ?i = Inr ?i"
    by (simp add: scenario_config_def model_defs)
  have n: "\<not> resident (cache ?i ! unat (setIndex ?c 0)) (tag_of ?c 0) \<and> isWriteAlloc ?c"
    by (simp add: scenario_config_def model_defs resident_def)
  from store_access [of ?c "[]" ?i 0, THEN conjunct1, rule_format, OF h, unfolded Let_def,
         THEN conjunct2, rule_format, OF n]
  obtain j where j: "is_target (cache ?i ! unat (setIndex ?c 0)) j"
    and st: "step ?c (''s'', 0) ?i =
       Inr (?i\<lparr>cache := (cache ?i)[unat (setIndex ?c 0) := (cache ?i ! unat (setIndex ?c 0))
                  [j := (cache ?i ! unat (setIndex ?c 0) ! j)
                     \<lparr>valid := True, tag := tag_of ?c 0, lastUsed := timeCounter ?i + 1,
                      dirty := (writePolicy ?c \<noteq> ''write-through'')\<rparr>]],
              totalStores := totalStores ?i + 1, storeMisses := storeMisses ?i + 1,
              cycles := cycles ?i + to_ulong (100 * int_div (blockSize ?c) 4)
                 + (if (\<forall>l \<in> set (cache ?i ! unat (setIndex ?c 0)). valid l)
                       \<and> writePolicy ?c = ''write-back''
                       \<and> dirty (cache ?i ! unat (setIndex ?c 0) ! j)
                    then to_ulong (100 * int_div (blockSize ?c) 4) else 0)
                 + (if writePolicy ?c = ''write-through'' then 101 else 1),
              timeCounter := timeCounter ?i + 1\<rparr>)"
    by blast
  from j have "j = 0"
    by (simp add: scenario_config_def model_defs is_target_def is_first_empty_def)
  with st have "step ?c (''s'', 0) ?i =
       Inr (?i\<lparr>cache := [[\<lparr>valid = True, dirty = True, tag = 0, lastUsed = 1\<rparr>]],
               totalStores := 1, storeMisses := 1, cycles := 101, timeCounter := 1\<rparr>)"
    by (simp add: scenario_config_def init_sim_def new_line_def setIndex_def tag_of_def
          blockOffsetBits_def setBits_def log2.simps int_div_def to_ulong_def)
  with h n show ?thesis by blast
qed

text \<open>
  Claim C2. The claim gives every store miss under write-allocate the fetch cost
  \<open>100 * (blockSize / 4)\<close>, followed by 1 cycle under write-back, under every valid
  configuration. The program computes the fetch cost in \<^verbatim>\<open>int\<close> (line 156), and the
  validation admits block sizes up to \<open>2 ^ 30\<close>. Under the validated write-back
  configuration of one set of one line with blocks of \<open>2 ^ 27\<close> bytes the claim's cost of
  the miss is 3355443200 + 1, and 3355443200 is outside the range of \<^verbatim>\<open>int\<close>: the store
  to address 0, a miss on the empty cache, is counted and installs its dirty line as the
  claim says, but leaves the cycles at 18446744072770027521 instead of 3355443201. The
  other parts of the claim hold under every validated configuration (lemma
  \<open>store_access\<close>), and the \<^verbatim>\<open>int\<close> expression has the claim's value when the block size
  is at most \<open>2 ^ 26\<close> (lemma \<open>block_cost_value\<close>).
\<close>

theorem store_miss_cost_overflow:
  "simulate big_block_config [(''s'', 0)] =
     Inr \<lparr>cache = [[\<lparr>valid = True, dirty = True, tag = 0, lastUsed = 1\<rparr>]],
          totalLoads = 0, totalStores = 1, loadHits = 0, loadMisses = 0,
          storeHits = 0, storeMisses = 1, cycles = 18446744072770027521, timeCounter = 1\<rparr>
   \<and> 100 * (sint (blockSize big_block_config) div 4) + 1 = 3355443201"
  by (simp add: big_block_config_def model_defs)

section \<open>The eviction penalty\<close>

lemma odd_push_bit_nonzero:
  "odd a \<Longrightarrow> n < LENGTH('a) \<Longrightarrow> push_bit n a \<noteq> 0" for a :: "'a::len word"
proof
  assume a: "odd a" "n < LENGTH('a)" and z: "push_bit n a = 0"
  from a have "bit (push_bit n a) n" by (simp add: bit_push_bit_iff bit_0)
  with z show False by simp
qed

lemma sint_to_ulong: "sint (to_ulong x) = sint x"
  unfolding to_ulong_def by (rule sint_up_scast) (simp add: is_up)

lemma to_ulong_eq_0_iff: "to_ulong x = 0 \<longleftrightarrow> x = 0"
proof
  assume "to_ulong x = 0"
  then have "sint (to_ulong x) = 0" by simp
  then have "sint x = 0" by (simp add: sint_to_ulong)
  then have "word_of_int (sint x) = (0 :: cint)" by simp
  then show "x = 0" by simp
next
  assume "x = 0"
  then show "to_ulong x = 0" by (simp add: to_ulong_def)
qed

lemma valid_blockSize:
  assumes "validate cfg = None"
  shows "\<exists>k. 2 \<le> k \<and> k < 31 \<and> blockSize cfg = 2 ^ k \<and> sint (blockSize cfg) = 2 ^ k
           \<and> int_div (blockSize cfg) 4 = 2 ^ (k - 2)"
proof -
  from validate_None(3) [OF assms] obtain k where k: "k < 31" "blockSize cfg = 2 ^ k"
    by (auto simp: isPowerOfTwo_iff)
  from sint_pow2 [OF k(1)] k(2) have s: "sint (blockSize cfg) = 2 ^ k" by simp
  from validate_None(4) [OF assms] s have "(4::int) \<le> 2 ^ k"
    by (simp add: word_sless_alt)
  then have "(2::int) ^ 2 \<le> 2 ^ k" by simp
  then have k2: "2 \<le> k" by (simp only: power_increasing_iff [of 2] one_less_numeral_iff semiring_norm)
  then obtain m where m: "k = m + 2" by (metis add.commute le_Suc_ex)
  have "(2::int) ^ k sdiv 4 = 2 ^ m"
    by (simp add: m signed_divide_int_def)
  then have "int_div (blockSize cfg) 4 = 2 ^ (k - 2)"
    by (simp add: int_div_def s m)
  with k k2 s show ?thesis by blast
qed

lemma block_cost_nonzero:
  assumes "validate cfg = None"
  shows "to_ulong (100 * int_div (blockSize cfg) 4) \<noteq> 0"
proof -
  from valid_blockSize [OF assms] obtain k where k: "2 \<le> k" "k < 31"
    "int_div (blockSize cfg) 4 = 2 ^ (k - 2)" by blast
  have "(100 :: cint) * 2 ^ (k - 2) = push_bit k 25"
  proof -
    from k(1) obtain m where m: "k = m + 2" by (metis add.commute le_Suc_ex)
    show ?thesis by (simp add: m push_bit_eq_mult)
  qed
  moreover have "push_bit k (25 :: cint) \<noteq> 0"
    using k(2) by (intro odd_push_bit_nonzero) simp_all
  ultimately have "100 * int_div (blockSize cfg) 4 \<noteq> 0" using k(3) by simp
  then show ?thesis by (simp add: to_ulong_eq_0_iff)
qed

lemma target_victim_dirty:
  assumes "is_target ls j" "\<forall>l \<in> set ls. valid l"
  shows "(\<exists>v. is_victim ls v \<and> dirty (ls ! v)) \<longleftrightarrow> dirty (ls ! j)"
proof -
  from assms have "is_victim ls j" by (simp add: is_target_def)
  then show ?thesis by (auto dest: is_victim_unique)
qed

text \<open>
  The eviction penalty in general. In every state reached under a validated configuration,
  an access that misses and allocates (a load, or a store under write-allocate) adds its
  own cost and, on top of it, the value that the program computes for
  \<^verbatim>\<open>100 * (blockSize / 4)\<close>, an \<^verbatim>\<open>int\<close> converted to \<^verbatim>\<open>unsigned long\<close>, exactly when
  the set has no invalid line, the write policy is write-back and the victim, the first
  line with the least time stamp, is dirty; otherwise it adds nothing on top. A store miss
  without write-allocate adds 100 cycles and no penalty. The penalty is never 0, so the
  two cases differ.
\<close>

lemma eviction_penalty:
  "(validate cfg = None \<and> run_from cfg t (init_sim new_line cfg) = Inr st
      \<and> \<not> resident (cache st ! unat (setIndex cfg addr)) (tag_of cfg addr)
      \<and> (oper = ''l'' \<or> oper = ''s'' \<and> isWriteAlloc cfg)
    \<longrightarrow> (\<exists>st'. step cfg (oper, addr) st = Inr st' \<and>
           cycles st' =
             cycles st
             + (if oper = ''l'' then to_ulong (100 * int_div (blockSize cfg) 4 + 1)
                else to_ulong (100 * int_div (blockSize cfg) 4)
                     + (if writePolicy cfg = ''write-through'' then 101 else 1))
             + (if (\<forall>l \<in> set (cache st ! unat (setIndex cfg addr)). valid l)
                   \<and> writePolicy cfg = ''write-back''
                   \<and> (\<exists>v. is_victim (cache st ! unat (setIndex cfg addr)) v
                            \<and> dirty (cache st ! unat (setIndex cfg addr) ! v))
                then to_ulong (100 * int_div (blockSize cfg) 4) else 0)))
   \<and> (validate cfg = None \<and> run_from cfg t (init_sim new_line cfg) = Inr st
      \<and> \<not> resident (cache st ! unat (setIndex cfg addr)) (tag_of cfg addr)
      \<and> \<not> isWriteAlloc cfg
    \<longrightarrow> (\<exists>st'. step cfg (''s'', addr) st = Inr st' \<and> cycles st' = cycles st + 100))
   \<and> (validate cfg = None \<longrightarrow> to_ulong (100 * int_div (blockSize cfg) 4) \<noteq> 0)"
proof (intro conjI impI)
  assume h: "validate cfg = None \<and> run_from cfg t (init_sim new_line cfg) = Inr st
      \<and> \<not> resident (cache st ! unat (setIndex cfg addr)) (tag_of cfg addr)
      \<and> (oper = ''l'' \<or> oper = ''s'' \<and> isWriteAlloc cfg)"
  then have v: "validate cfg = None" and r: "run_from cfg t (init_sim new_line cfg) = Inr st"
    and nr: "\<not> resident (cache st ! unat (setIndex cfg addr)) (tag_of cfg addr)"
    and op: "oper = ''l'' \<or> oper = ''s'' \<and> isWriteAlloc cfg" by simp_all
  note S = reach_set [OF v r, of addr]
  let ?ls = "cache st ! unat (setIndex cfg addr)"
  let ?goal = "\<exists>st'. step cfg (oper, addr) st = Inr st' \<and>
           cycles st' =
             cycles st
             + (if oper = ''l'' then to_ulong (100 * int_div (blockSize cfg) 4 + 1)
                else to_ulong (100 * int_div (blockSize cfg) 4)
                     + (if writePolicy cfg = ''write-through'' then 101 else 1))
             + (if (\<forall>l \<in> set ?ls. valid l)
                   \<and> writePolicy cfg = ''write-back''
                   \<and> (\<exists>v. is_victim ?ls v \<and> dirty (?ls ! v))
                then to_ulong (100 * int_div (blockSize cfg) 4) else 0)"
  from op show ?goal
  proof
    assume l: "oper = ''l''"
    from access_load_miss [OF S nr] obtain j where j: "is_target ?ls j"
      and a: "access cfg ''l'' (unat (setIndex cfg addr)) (tag_of cfg addr) st =
       Inr (st\<lparr>cache := (cache st)[unat (setIndex cfg addr) := ?ls[j := (?ls ! j)
                     \<lparr>valid := True, tag := tag_of cfg addr, lastUsed := timeCounter st + 1, dirty := False\<rparr>]],
               totalLoads := totalLoads st + 1, loadMisses := loadMisses st + 1,
               cycles := cycles st + to_ulong (block_cost cfg + 1)
                  + (if (\<forall>l \<in> set ?ls. valid l) \<and> writePolicy cfg = ''write-back''
                        \<and> dirty (?ls ! j)
                     then to_ulong (block_cost cfg) else 0),
               timeCounter := timeCounter st + 1\<rparr>)" by blast
    show ?goal
      unfolding step_def fst_conv snd_conv l a
      using target_victim_dirty [OF j] by (auto simp: block_cost_def)
  next
    assume s: "oper = ''s'' \<and> isWriteAlloc cfg"
    from access_store_miss_alloc [OF S nr s [THEN conjunct2]] obtain j where j: "is_target ?ls j"
      and a: "access cfg ''s'' (unat (setIndex cfg addr)) (tag_of cfg addr) st =
       Inr (st\<lparr>cache := (cache st)[unat (setIndex cfg addr) := ?ls[j := (?ls ! j)
                     \<lparr>valid := True, tag := tag_of cfg addr, lastUsed := timeCounter st + 1,
                      dirty := (writePolicy cfg \<noteq> ''write-through'')\<rparr>]],
               totalStores := totalStores st + 1, storeMisses := storeMisses st + 1,
               cycles := cycles st + to_ulong (block_cost cfg)
                  + (if (\<forall>l \<in> set ?ls. valid l) \<and> writePolicy cfg = ''write-back''
                        \<and> dirty (?ls ! j)
                     then to_ulong (block_cost cfg) else 0)
                  + (if writePolicy cfg = ''write-through'' then 101 else 1),
               timeCounter := timeCounter st + 1\<rparr>)" by blast
    from s have s': "oper = ''s''" by simp
    show ?goal
      unfolding step_def fst_conv snd_conv s' a
      using target_victim_dirty [OF j] by (auto simp: block_cost_def)
  qed
next
  assume h: "validate cfg = None \<and> run_from cfg t (init_sim new_line cfg) = Inr st
      \<and> \<not> resident (cache st ! unat (setIndex cfg addr)) (tag_of cfg addr)
      \<and> \<not> isWriteAlloc cfg"
  then have v: "validate cfg = None" and r: "run_from cfg t (init_sim new_line cfg) = Inr st"
    by simp_all
  note S = reach_set [OF v r, of addr]
  from access_store_miss_noalloc [OF S(1) S(2)] h
  show "\<exists>st'. step cfg (''s'', addr) st = Inr st' \<and> cycles st' = cycles st + 100"
    by (simp add: step_def)
next
  assume "validate cfg = None"
  then show "to_ulong (100 * int_div (blockSize cfg) 4) \<noteq> 0" by (rule block_cost_nonzero)
qed

text \<open>The lemma at a dirty eviction: after a store to address 0 on the scenario
  configuration the only line is dirty, and a load of address 4 (tag 1) pays
  101 + 100 cycles on top of the 101 of the store.\<close>

lemma eviction_penalty_at_scenario:
  "validate scenario_config = None
   \<and> (\<exists>st. run_from scenario_config [(''s'', 0)] (init_sim new_line scenario_config) = Inr st
        \<and> \<not> resident (cache st ! unat (setIndex scenario_config 4)) (tag_of scenario_config 4)
        \<and> cycles st = 101
        \<and> (\<exists>st'. step scenario_config (''l'', 4) st = Inr st' \<and> cycles st' = 302))"
proof -
  let ?c = scenario_config
  define st where "st = (init_sim new_line scenario_config)
      \<lparr>cache := [[\<lparr>valid = True, dirty = True, tag = 0, lastUsed = 1\<rparr>]],
       totalStores := 1, storeMisses := 1, cycles := 101, timeCounter := 1\<rparr>"
  have v: "validate ?c = None" by (simp add: scenario_config_def model_defs)
  have r: "run_from ?c [(''s'', 0)] (init_sim new_line ?c) = Inr st"
    by (simp add: st_def scenario_config_def model_defs)
  have n: "\<not> resident (cache st ! unat (setIndex ?c 4)) (tag_of ?c 4)"
    by (simp add: st_def scenario_config_def model_defs resident_def)
  have vic: "is_victim (cache st ! unat (setIndex ?c 4)) 0 \<and> dirty (cache st ! unat (setIndex ?c 4) ! 0)"
    by (simp add: st_def scenario_config_def model_defs is_victim_def)
  have full: "\<forall>l \<in> set (cache st ! unat (setIndex ?c 4)). valid l"
    by (simp add: st_def scenario_config_def model_defs)
  from eviction_penalty [of ?c "[(''s'', 0)]" st 4 "''l''", THEN conjunct1, rule_format]
    v r n
  obtain st' where st': "step ?c (''l'', 4) st = Inr st'"
    "cycles st' =
             cycles st
             + (if ''l'' = ''l'' then to_ulong (100 * int_div (blockSize ?c) 4 + 1)
                else to_ulong (100 * int_div (blockSize ?c) 4)
                     + (if writePolicy ?c = ''write-through'' then 101 else 1))
             + (if (\<forall>l \<in> set (cache st ! unat (setIndex ?c 4)). valid l)
                   \<and> writePolicy ?c = ''write-back''
                   \<and> (\<exists>v. is_victim (cache st ! unat (setIndex ?c 4)) v
                            \<and> dirty (cache st ! unat (setIndex ?c 4) ! v))
                then to_ulong (100 * int_div (blockSize ?c) 4) else 0)"
    by blast
  from vic have ex: "\<exists>v. is_victim (cache st ! unat (setIndex ?c 4)) v
                            \<and> dirty (cache st ! unat (setIndex ?c 4) ! v)" by blast
  have wb: "writePolicy ?c = ''write-back''" "blockSize ?c = 4"
    by (simp_all add: scenario_config_def)
  have c: "cycles st = 101" by (simp add: st_def)
  from st'(2) full ex have "cycles st' = 302"
    by (simp add: wb c int_div_def to_ulong_def)
  with v r n c st'(1) show ?thesis by blast
qed

text \<open>
  Claim C3. The claim puts the extra cost of a dirty eviction at \<open>100 * (blockSize / 4)\<close>
  under every valid configuration. The program computes it in \<^verbatim>\<open>int\<close> (lines 132 and
  163), and the validation admits block sizes up to \<open>2 ^ 30\<close>. Under the validated
  write-back configuration of one set of one line with blocks of \<open>2 ^ 27\<close> bytes the
  claim's extra is 3355443200, which is outside the range of \<^verbatim>\<open>int\<close>. A load and a store
  of address 0 on the empty cache cost the same and leave a clean and a dirty line. The
  following load of address \<open>2 ^ 27\<close> (tag 1) misses and evicts that line: after the clean
  line the cycles are 18446744071830503426, after the dirty line 18446744070890979330. The
  extra that the dirty eviction adds is their difference, 18446744072770027520 (that is
  \<open>2 ^ 64 - 939524096\<close>), not 3355443200. When the penalty is added is as the claim says
  under every validated configuration (lemma \<open>eviction_penalty\<close>), and the \<^verbatim>\<open>int\<close>
  expression has the claim's value when the block size is at most \<open>2 ^ 26\<close> (lemma
  \<open>block_cost_value\<close>).
\<close>

theorem eviction_penalty_overflow:
  "map_sum id cycles (simulate big_block_config [(''l'', 0)]) = Inr 18446744072770027521
   \<and> map_sum id cycles (simulate big_block_config [(''s'', 0)]) = Inr 18446744072770027521
   \<and> map_sum id cycles (simulate big_block_config [(''l'', 0), (''l'', 134217728)])
       = Inr 18446744071830503426
   \<and> map_sum id cycles (simulate big_block_config [(''s'', 0), (''l'', 134217728)])
       = Inr 18446744070890979330
   \<and> (18446744070890979330 :: ulong) - 18446744071830503426 = 18446744072770027520
   \<and> 100 * (sint (blockSize big_block_config) div 4) = 3355443200"
  by (simp add: big_block_config_def model_defs)

section \<open>Uniqueness of the hit\<close>

lemma distinct_tags_unique:
  assumes "distinct_tags ls" "i < length ls" "j < length ls"
    "valid (ls ! i)" "tag (ls ! i) = tg" "valid (ls ! j)" "tag (ls ! j) = tg"
  shows "i = j"
  using assms unfolding distinct_tags_def by metis

text \<open>
  Claim C8. In every state reached from the empty cache under a validated configuration,
  no two valid lines of a set hold the same tag. Hence for every tag at most one line of a
  set is valid with that tag, and when the tag is resident the index at which the scan
  stops is that of this one line.
\<close>

theorem unique_hit:
  "validate cfg = None \<and> run_from cfg t (init_sim new_line cfg) = Inr st \<longrightarrow>
     (\<forall>ls \<in> set (cache st).
        distinct_tags ls
        \<and> (\<forall>tg.
             (\<forall>i<length ls. \<forall>j<length ls.
                valid (ls ! i) \<and> tag (ls ! i) = tg \<and> valid (ls ! j) \<and> tag (ls ! j) = tg \<longrightarrow> i = j)
             \<and> (resident ls tg \<longrightarrow>
                  (\<exists>j<length ls. hit (scan ls tg 0 scan_init)
                     \<and> hitIndex (scan ls tg 0 scan_init) = int j
                     \<and> valid (ls ! j) \<and> tag (ls ! j) = tg
                     \<and> (\<forall>i<length ls. valid (ls ! i) \<and> tag (ls ! i) = tg \<longrightarrow> i = j)))))"
proof (intro impI ballI)
  fix ls
  assume h: "validate cfg = None \<and> run_from cfg t (init_sim new_line cfg) = Inr st"
    and ls: "ls \<in> set (cache st)"
  from reach_inv1 [OF h [THEN conjunct1] h [THEN conjunct2]] ls
  have d: "distinct_tags ls" by (simp add: inv1_def)
  have u: "\<forall>i<length ls. \<forall>j<length ls.
          valid (ls ! i) \<and> tag (ls ! i) = tg \<and> valid (ls ! j) \<and> tag (ls ! j) = tg \<longrightarrow> i = j" for tg
    using distinct_tags_unique [OF d] by blast
  have f: "resident ls tg \<longrightarrow>
          (\<exists>j<length ls. hit (scan ls tg 0 scan_init)
             \<and> hitIndex (scan ls tg 0 scan_init) = int j
             \<and> valid (ls ! j) \<and> tag (ls ! j) = tg
             \<and> (\<forall>i<length ls. valid (ls ! i) \<and> tag (ls ! i) = tg \<longrightarrow> i = j))" for tg
  proof
    assume "resident ls tg"
    from scan_hit [OF this] obtain j where j: "is_hit_at ls tg j" "hit (scan ls tg 0 scan_init)"
      "hitIndex (scan ls tg 0 scan_init) = int j" by blast
    from j(1) have j': "j < length ls" "valid (ls ! j)" "tag (ls ! j) = tg"
      by (simp_all add: is_hit_at_def)
    have "\<forall>i<length ls. valid (ls ! i) \<and> tag (ls ! i) = tg \<longrightarrow> i = j"
      using distinct_tags_unique [OF d _ j'(1) _ _ j'(2) j'(3)] by blast
    with j j' show "\<exists>j<length ls. hit (scan ls tg 0 scan_init)
             \<and> hitIndex (scan ls tg 0 scan_init) = int j
             \<and> valid (ls ! j) \<and> tag (ls ! j) = tg
             \<and> (\<forall>i<length ls. valid (ls ! i) \<and> tag (ls ! i) = tg \<longrightarrow> i = j)" by blast
  qed
  from d u f show "distinct_tags ls
        \<and> (\<forall>tg.
             (\<forall>i<length ls. \<forall>j<length ls.
                valid (ls ! i) \<and> tag (ls ! i) = tg \<and> valid (ls ! j) \<and> tag (ls ! j) = tg \<longrightarrow> i = j)
             \<and> (resident ls tg \<longrightarrow>
                  (\<exists>j<length ls. hit (scan ls tg 0 scan_init)
                     \<and> hitIndex (scan ls tg 0 scan_init) = int j
                     \<and> valid (ls ! j) \<and> tag (ls ! j) = tg
                     \<and> (\<forall>i<length ls. valid (ls ! i) \<and> tag (ls ! i) = tg \<longrightarrow> i = j))))"
    by blast
qed

text \<open>The theorem after two loads that fill a two-line set with the tags 0 and 1: the scan
  for tag 1 stops at index 1, the only line holding it.\<close>

theorem unique_hit_witness:
  "validate (two_way_config ''lru'') = None
   \<and> (\<exists>st ls. run_from (two_way_config ''lru'') [(''l'', 0), (''l'', 4)]
                 (init_sim new_line (two_way_config ''lru'')) = Inr st
        \<and> cache st = [ls] \<and> length ls = 2
        \<and> valid (ls ! 0) \<and> tag (ls ! 0) = 0 \<and> valid (ls ! 1) \<and> tag (ls ! 1) = 1
        \<and> distinct_tags ls \<and> resident ls 1
        \<and> hitIndex (scan ls 1 0 scan_init) = 1)"
proof -
  let ?c = "two_way_config ''lru''"
  define ls where "ls = [\<lparr>valid = True, dirty = False, tag = 0, lastUsed = 1\<rparr>,
                         \<lparr>valid = True, dirty = False, tag = 1, lastUsed = 2\<rparr>]"
  define st where "st = (init_sim new_line ?c)\<lparr>cache := [ls], totalLoads := 2, loadMisses := 2,
                            cycles := 202, timeCounter := 2\<rparr>"
  have v: "validate ?c = None" by code_simp
  have r: "run_from ?c [(''l'', 0), (''l'', 4)] (init_sim new_line ?c) = Inr st"
    unfolding st_def ls_def by code_simp
  have c: "ls \<in> set (cache st)" "cache st = [ls]" by (simp_all add: st_def)
  have res: "resident ls 1" by (simp add: resident_def ls_def)
  have facts: "length ls = 2 \<and> valid (ls ! 0) \<and> tag (ls ! 0) = 0 \<and> valid (ls ! 1) \<and> tag (ls ! 1) = 1"
    by (simp add: ls_def)
  note U = unique_hit [of ?c "[(''l'', 0), (''l'', 4)]" st, rule_format, OF conjI [OF v r] c(1)]
  from U have d: "distinct_tags ls" by (rule conjunct1)
  from U [THEN conjunct2, rule_format, of 1, THEN conjunct2, rule_format, OF res]
  obtain j where j: "j < length ls" "hitIndex (scan ls 1 0 scan_init) = int j"
    "\<forall>i<length ls. valid (ls ! i) \<and> tag (ls ! i) = 1 \<longrightarrow> i = j" by blast
  from facts have "(1::nat) < length ls \<and> valid (ls ! 1) \<and> tag (ls ! 1) = 1" by simp
  with j(3) have "j = 1" by blast
  with j(2) have "hitIndex (scan ls 1 0 scan_init) = 1" by simp
  with v r c(2) facts d res show ?thesis by blast
qed

section \<open>Configuration errors and totality\<close>

lemma positive_power_of_two_iff: "positive_power_of_two n \<longleftrightarrow> isPowerOfTwo n"
proof
  assume "positive_power_of_two n"
  then obtain k where k: "sint n = 2 ^ k" by (auto simp: positive_power_of_two_def)
  have "sint n < 2 ^ 31" using sint_lt [of n] by simp
  with k have "(2::int) ^ k < 2 ^ 31" by simp
  then have k31: "k < 31" by (rule power_less_imp_less_exp [rotated]) simp
  have "n = word_of_int (sint n)" by simp
  also have "\<dots> = 2 ^ k" unfolding k by simp
  finally show "isPowerOfTwo n" using k31 by (auto simp: isPowerOfTwo_iff)
next
  assume "isPowerOfTwo n"
  then obtain k where "k < 31" "n = 2 ^ k" by (auto simp: isPowerOfTwo_iff)
  with sint_pow2 [of k] show "positive_power_of_two n"
    by (auto simp: positive_power_of_two_def)
qed

lemma run_total:
  assumes "validate cfg = None"
  shows "\<exists>st. run_from cfg t (init_sim new_line cfg) = Inr st"
  using run_inv1 [OF assms inv1_init, of t] by blast

text \<open>With enough memory for the cache, the program is \<open>simulate\<close>.\<close>

lemma csim_simulate: "cache_bytes cfg \<le> capacity \<Longrightarrow> csim capacity cfg t = simulate cfg t"
  by (simp add: csim_def simulate_def allocate_def and_then_def split: option.splits)

lemma validate_not_alloc: "validate cfg \<noteq> Some AllocationFailed"
  by (simp add: validate_def)

lemma validate_not_index: "validate cfg \<noteq> Some IndexOutOfRange"
  by (simp add: validate_def)

lemma csim_cases:
  "csim capacity cfg t =
     (case validate cfg of
        Some e \<Rightarrow> Inl e
      | None \<Rightarrow> if cache_bytes cfg \<le> capacity then run_from cfg t (init_sim new_line cfg)
                else Inl AllocationFailed)"
  by (simp add: csim_def allocate_def and_then_def split: option.splits)

text \<open>
  Claim C6, as amended. For a configuration whose policy arguments are legal words, the
  program ends in a configuration error exactly when one of the three sizes is not a
  positive power of two, or the block size is below 4, or no-write-allocate is paired with
  write-back. Such an error is the result of the validation alone (no cache is built and no
  access is processed) and is never an index out of range. Under a configuration that passes the
  validation, the run over any trace ends in a state, with no vector ever indexed outside
  its bounds, when the allocator can supply the memory of the cache; when it cannot, the
  program ends in the allocation failure of the constructor and processes no access.
\<close>

theorem configuration_errors:
  "(legal_policies cfg \<longrightarrow>
      ((\<exists>e. csim capacity cfg t = Inl e \<and> e \<noteq> AllocationFailed) \<longleftrightarrow>
         \<not> positive_power_of_two (numSets cfg) \<or> \<not> positive_power_of_two (blocksPerSet cfg)
         \<or> \<not> positive_power_of_two (blockSize cfg) \<or> blockSize cfg <s 4
         \<or> (\<not> isWriteAlloc cfg \<and> writePolicy cfg = ''write-back'')))
   \<and> (\<forall>e. csim capacity cfg t = Inl e \<and> e \<noteq> AllocationFailed
          \<longrightarrow> validate cfg = Some e \<and> e \<noteq> IndexOutOfRange)
   \<and> (validate cfg = None \<and> cache_bytes cfg \<le> capacity
        \<longrightarrow> (\<exists>st. csim capacity cfg t = Inr st))
   \<and> (validate cfg = None \<and> capacity < cache_bytes cfg
        \<longrightarrow> csim capacity cfg t = Inl AllocationFailed)"
proof -
  have a: "(\<exists>e. csim capacity cfg t = Inl e \<and> e \<noteq> AllocationFailed) \<longleftrightarrow> validate cfg \<noteq> None"
  proof (cases "validate cfg")
    case None
    with run_total [OF None, of t] show ?thesis by (auto simp: csim_cases)
  next
    case (Some e)
    with validate_not_alloc [of cfg] show ?thesis by (auto simp: csim_cases)
  qed
  have b: "validate cfg \<noteq> None \<longleftrightarrow>
         \<not> isPowerOfTwo (numSets cfg) \<or> \<not> isPowerOfTwo (blocksPerSet cfg)
         \<or> \<not> isPowerOfTwo (blockSize cfg) \<or> blockSize cfg <s 4
         \<or> (writeAlloc cfg = ''no-write-allocate'' \<and> writePolicy cfg = ''write-back'')"
    by (auto simp: validate_def)
  have c1: "legal_policies cfg \<longrightarrow>
      ((\<exists>e. csim capacity cfg t = Inl e \<and> e \<noteq> AllocationFailed) \<longleftrightarrow>
         \<not> positive_power_of_two (numSets cfg) \<or> \<not> positive_power_of_two (blocksPerSet cfg)
         \<or> \<not> positive_power_of_two (blockSize cfg) \<or> blockSize cfg <s 4
         \<or> (\<not> isWriteAlloc cfg \<and> writePolicy cfg = ''write-back''))"
  proof
    assume lp: "legal_policies cfg"
    then have wa: "\<not> isWriteAlloc cfg \<longleftrightarrow> writeAlloc cfg = ''no-write-allocate''"
      by (auto simp: legal_policies_def isWriteAlloc_def)
    from a b wa show "(\<exists>e. csim capacity cfg t = Inl e \<and> e \<noteq> AllocationFailed) \<longleftrightarrow>
         \<not> positive_power_of_two (numSets cfg) \<or> \<not> positive_power_of_two (blocksPerSet cfg)
         \<or> \<not> positive_power_of_two (blockSize cfg) \<or> blockSize cfg <s 4
         \<or> (\<not> isWriteAlloc cfg \<and> writePolicy cfg = ''write-back'')"
      by (simp only: positive_power_of_two_iff)
  qed
  have c2: "\<forall>e. csim capacity cfg t = Inl e \<and> e \<noteq> AllocationFailed
          \<longrightarrow> validate cfg = Some e \<and> e \<noteq> IndexOutOfRange"
  proof (intro allI impI)
    fix e
    assume e: "csim capacity cfg t = Inl e \<and> e \<noteq> AllocationFailed"
    have "validate cfg = Some e"
    proof (cases "validate cfg")
      case None
      with run_total [OF None, of t] e show ?thesis by (auto simp: csim_cases split: if_splits)
    next
      case (Some e')
      with e show ?thesis by (simp add: csim_cases)
    qed
    with validate_not_index [of cfg] show "validate cfg = Some e \<and> e \<noteq> IndexOutOfRange"
      by auto
  qed
  have c3: "validate cfg = None \<and> cache_bytes cfg \<le> capacity
        \<longrightarrow> (\<exists>st. csim capacity cfg t = Inr st)"
  proof
    assume h: "validate cfg = None \<and> cache_bytes cfg \<le> capacity"
    with run_total [of cfg t] show "\<exists>st. csim capacity cfg t = Inr st"
      by (simp add: csim_cases)
  qed
  have c4: "validate cfg = None \<and> capacity < cache_bytes cfg
        \<longrightarrow> csim capacity cfg t = Inl AllocationFailed"
    by (simp add: csim_cases)
  from c1 c2 c3 c4 show ?thesis by (intro conjI)
qed

text \<open>The theorem at the illegal pairing of no-write-allocate with write-back, which is
  rejected by the validation, and at the scenario configuration, whose cache takes 56 bytes:
  with 56 bytes the run over two loads ends in a state, with 55 the allocation fails.\<close>

theorem configuration_errors_witness:
  "legal_policies illegal_pair_config
   \<and> \<not> isWriteAlloc illegal_pair_config \<and> writePolicy illegal_pair_config = ''write-back''
   \<and> csim 56 illegal_pair_config [(''l'', 0)] = Inl NoWriteAllocateWithWriteBack
   \<and> NoWriteAllocateWithWriteBack \<noteq> AllocationFailed
   \<and> validate illegal_pair_config = Some NoWriteAllocateWithWriteBack
   \<and> validate scenario_config = None \<and> cache_bytes scenario_config \<le> 56
   \<and> (\<exists>st. csim 56 scenario_config [(''l'', 0), (''l'', 0)] = Inr st)
   \<and> 55 < cache_bytes scenario_config
   \<and> csim 55 scenario_config [(''l'', 0), (''l'', 0)] = Inl AllocationFailed"
proof -
  let ?c = illegal_pair_config
  have lp: "legal_policies ?c"
    by (simp add: legal_policies_def illegal_pair_config_def)
  have bad: "\<not> isWriteAlloc ?c \<and> writePolicy ?c = ''write-back''"
    by (simp add: isWriteAlloc_def illegal_pair_config_def)
  from configuration_errors [of ?c 56 "[(''l'', 0)]", THEN conjunct1, rule_format, OF lp] bad
  obtain e where e: "csim 56 ?c [(''l'', 0)] = Inl e \<and> e \<noteq> AllocationFailed" by blast
  from configuration_errors [of ?c 56 "[(''l'', 0)]", THEN conjunct2, THEN conjunct1, rule_format, OF e]
  have ve: "validate ?c = Some e" by simp
  have "validate ?c = Some NoWriteAllocateWithWriteBack" by code_simp
  with ve have "e = NoWriteAllocateWithWriteBack" by simp
  with e ve have f: "csim 56 ?c [(''l'', 0)] = Inl NoWriteAllocateWithWriteBack"
    "validate ?c = Some NoWriteAllocateWithWriteBack" by simp_all
  have v: "validate scenario_config = None" by code_simp
  have cb: "cache_bytes scenario_config = 56"
    by (simp add: cache_bytes_def scenario_config_def)
  from v cb have h3: "validate scenario_config = None \<and> cache_bytes scenario_config \<le> 56" by simp
  from v cb have h4: "validate scenario_config = None \<and> 55 < cache_bytes scenario_config" by simp
  from configuration_errors [of scenario_config 56 "[(''l'', 0), (''l'', 0)]",
         THEN conjunct2, THEN conjunct2, THEN conjunct1, rule_format, OF h3]
  have r: "\<exists>st. csim 56 scenario_config [(''l'', 0), (''l'', 0)] = Inr st" .
  from configuration_errors [of scenario_config 55 "[(''l'', 0), (''l'', 0)]",
         THEN conjunct2, THEN conjunct2, THEN conjunct2, rule_format, OF h4]
  have r': "csim 55 scenario_config [(''l'', 0), (''l'', 0)] = Inl AllocationFailed" .
  from lp bad f v cb r r' show ?thesis by simp
qed

text \<open>
  Claim C6 as stated fails: that every configuration passing the checks runs to completion
  is false at \<open>2 ^ 30\<close> sets of \<open>2 ^ 30\<close> lines with legal policy words. The
  configuration passes the validation, its cache takes more than \<open>2 ^ 64\<close> bytes, and
  even an allocator that supplies \<open>2 ^ 64 - 1\<close> bytes, the largest size the target can
  express, fails: the program ends before the first access.
\<close>

theorem allocation_failure_counterexample:
  "legal_policies huge_config
   \<and> validate huge_config = None
   \<and> cache_bytes huge_config = 18446744116659224576
   \<and> csim 18446744073709551615 huge_config [(''l'', 0)] = Inl AllocationFailed"
proof -
  have lp: "legal_policies huge_config" by (simp add: legal_policies_def huge_config_def)
  have v: "validate huge_config = None" by (simp add: huge_config_def model_defs)
  have cb: "cache_bytes huge_config = 18446744116659224576"
    by (simp add: cache_bytes_def huge_config_def)
  from v cb have "csim 18446744073709551615 huge_config [(''l'', 0)] = Inl AllocationFailed"
    by (simp add: csim_cases)
  with lp v cb show ?thesis by simp
qed

section \<open>Counters and cycles\<close>

lemma even_to_ulong: "even (to_ulong x) \<longleftrightarrow> even x"
proof -
  have "bit (to_ulong x) 0 \<longleftrightarrow> bit x 0"
    unfolding to_ulong_def by (simp add: bit_word_scast_iff)
  then show ?thesis by (simp add: bit_0)
qed

lemma odd_nonzero: "odd c \<Longrightarrow> c \<noteq> 0" for c :: ulong
  by auto

lemma step_cycles:
  assumes v: "validate cfg = None" and r: "run_from cfg t (init_sim new_line cfg) = Inr st"
    and op: "oper = ''l'' \<or> oper = ''s''"
  shows "\<exists>st' c. step cfg (oper, addr) st = Inr st' \<and> cycles st' = cycles st + c
           \<and> (c = 1 \<or> c = 101 \<or> c = 100
                \<or> c = to_ulong (block_cost cfg + 1)
                \<or> c = to_ulong (block_cost cfg + 1) + to_ulong (block_cost cfg)
                \<or> c = to_ulong (block_cost cfg) + 101
                \<or> c = to_ulong (block_cost cfg) + 1
                \<or> c = to_ulong (block_cost cfg) + to_ulong (block_cost cfg) + 1)"
proof -
  note S = reach_set [OF v r, of addr]
  let ?ls = "cache st ! unat (setIndex cfg addr)"
  let ?tg = "tag_of cfg addr"
  show ?thesis
  proof (cases "resident ?ls ?tg")
    case True
    from op show ?thesis
    proof
      assume l: "oper = ''l''"
      from access_load_hit [OF S(1) S(2) True] show ?thesis
        unfolding step_def fst_conv snd_conv l by (auto simp: Let_def)
    next
      assume s: "oper = ''s''"
      from access_store_hit [OF S(1) S(2) True] show ?thesis
        unfolding step_def fst_conv snd_conv s by (auto simp: Let_def)
    qed
  next
    case False
    from op show ?thesis
    proof
      assume l: "oper = ''l''"
      from access_load_miss [OF S False] show ?thesis
        unfolding step_def fst_conv snd_conv l by (auto simp: Let_def)
    next
      assume s: "oper = ''s''"
      show ?thesis
      proof (cases "isWriteAlloc cfg")
        case wa: True
        from access_store_miss_alloc [OF S False wa] show ?thesis
          unfolding step_def fst_conv snd_conv s by (auto simp: Let_def)
      next
        case nwa: False
        from access_store_miss_noalloc [OF S(1) S(2) False nwa] show ?thesis
          unfolding step_def fst_conv snd_conv s by (auto simp: Let_def)
      qed
    qed
  qed
qed

lemma uint_eq_sint: "0 \<le> sint w \<Longrightarrow> uint w = sint w" for w :: "'a::len word"
proof -
  assume nn: "0 \<le> sint w"
  have "sint w < 2 ^ (LENGTH('a) - 1)" by (rule sint_lt)
  also have "(2::int) ^ (LENGTH('a) - 1) \<le> 2 ^ LENGTH('a)"
    by (rule power_increasing) simp_all
  finally have "sint w < 2 ^ LENGTH('a)" .
  with nn have "take_bit LENGTH('a) (sint w) = sint w"
    by (simp add: take_bit_int_eq_self)
  then show ?thesis by (simp add: uint_sint)
qed

lemma unat_to_ulong: "0 \<le> sint x \<Longrightarrow> unat (to_ulong x) = nat (sint x)"
proof -
  assume "0 \<le> sint x"
  then have "0 \<le> sint (to_ulong x)" by (simp add: sint_to_ulong)
  from uint_eq_sint [OF this] have "uint (to_ulong x) = sint x" by (simp add: sint_to_ulong)
  then have "nat (uint (to_ulong x)) = nat (sint x)" by simp
  then show ?thesis by (simp only: unat_eq_nat_uint)
qed

lemma sint_cint_of_int:
  "- (2 ^ 31) \<le> x \<Longrightarrow> x < 2 ^ 31 \<Longrightarrow> sint (word_of_int x :: cint) = x"
  by (simp add: sint_sbintrunc' signed_take_bit_int_eq_self)

lemma block_cost_value:
  assumes v: "validate cfg = None" and small: "sint (blockSize cfg) \<le> 2 ^ 26"
  shows "sint (block_cost cfg) = 100 * (sint (blockSize cfg) div 4)"
    and "sint (block_cost cfg + 1) = 100 * (sint (blockSize cfg) div 4) + 1"
    and "1 \<le> sint (blockSize cfg) div 4" and "sint (blockSize cfg) div 4 \<le> 2 ^ 24"
proof -
  from valid_blockSize [OF v] obtain k where k: "2 \<le> k" "k < 31" "sint (blockSize cfg) = 2 ^ k"
    "int_div (blockSize cfg) 4 = 2 ^ (k - 2)" by blast
  from k(1) obtain m where m: "k = m + 2" by (metis add.commute le_Suc_ex)
  from small k(3) have "(2::int) ^ k \<le> 2 ^ 26" by simp
  then have "k \<le> 26" by (simp only: power_increasing_iff [of 2] one_less_numeral_iff semiring_norm)
  with m have m24: "m \<le> 24" by simp
  have q: "sint (blockSize cfg) div 4 = 2 ^ m" by (simp add: k(3) m)
  have le: "(2::int) ^ m \<le> 2 ^ 24" using m24 by (intro power_increasing) simp_all
  have ge: "(1::int) \<le> 2 ^ m" by simp
  show "1 \<le> sint (blockSize cfg) div 4" "sint (blockSize cfg) div 4 \<le> 2 ^ 24"
    using q le ge by simp_all
  have bc: "block_cost cfg = word_of_int (100 * 2 ^ m)"
    by (simp add: block_cost_def k(4) m)
  have bc1: "block_cost cfg + 1 = word_of_int (100 * 2 ^ m + 1)"
    by (simp add: bc)
  from le have r: "(100::int) * 2 ^ m + 1 < 2 ^ 31" "(100::int) * 2 ^ m < 2 ^ 31" by simp_all
  have p: "- (2 ^ 31) \<le> (0::int)" by simp
  have r0: "- (2 ^ 31) \<le> (100::int) * 2 ^ m" "- (2 ^ 31) \<le> (100::int) * 2 ^ m + 1"
    by (rule order_trans [OF p], simp)+
  show "sint (block_cost cfg) = 100 * (sint (blockSize cfg) div 4)"
    unfolding bc q by (rule sint_cint_of_int [OF r0(1) r(2)])
  show "sint (block_cost cfg + 1) = 100 * (sint (blockSize cfg) div 4) + 1"
    unfolding bc1 q by (rule sint_cint_of_int [OF r0(2) r(1)])
qed

lemma even_block_cost: "even (block_cost cfg)"
  by (simp add: block_cost_def)

lemma cost_nonzero:
  assumes "c = 1 \<or> c = 101 \<or> c = 100
                \<or> c = to_ulong (block_cost cfg + 1)
                \<or> c = to_ulong (block_cost cfg + 1) + to_ulong (block_cost cfg)
                \<or> c = to_ulong (block_cost cfg) + 101
                \<or> c = to_ulong (block_cost cfg) + 1
                \<or> c = to_ulong (block_cost cfg) + to_ulong (block_cost cfg) + 1"
  shows "c \<noteq> 0"
proof -
  have e: "even (to_ulong (block_cost cfg))" "odd (to_ulong (block_cost cfg + 1))"
    by (simp_all add: even_to_ulong even_block_cost)
  from assms consider "c = 1 \<or> c = 101 \<or> c = 100" | "odd c"
    using e by auto
  then show ?thesis
  proof cases
    case 1
    then show ?thesis by auto
  next
    case 2
    then show ?thesis by (rule odd_nonzero)
  qed
qed

lemma unat_sum_small:
  fixes x y :: ulong
  assumes "unat x \<le> a" "unat y \<le> b" "a + b < 2 ^ 64"
  shows "unat (x + y) = unat x + unat y"
proof -
  from assms have "unat x + unat y < 2 ^ LENGTH(64)" by simp
  then show ?thesis by (simp only: unat_add_lem)
qed

lemma cost_bounds:
  assumes v: "validate cfg = None" and small: "sint (blockSize cfg) \<le> 2 ^ 26"
    and c: "c = 1 \<or> c = 101 \<or> c = 100
                \<or> c = to_ulong (block_cost cfg + 1)
                \<or> c = to_ulong (block_cost cfg + 1) + to_ulong (block_cost cfg)
                \<or> c = to_ulong (block_cost cfg) + 101
                \<or> c = to_ulong (block_cost cfg) + 1
                \<or> c = to_ulong (block_cost cfg) + to_ulong (block_cost cfg) + 1"
  shows "0 < uint c \<and> uint c \<le> 200 * (sint (blockSize cfg) div 4) + 1"
proof -
  define q where "q = nat (sint (blockSize cfg) div 4)"
  note B = block_cost_value [OF v small]
  from B(3) have qi: "sint (blockSize cfg) div 4 = int q" by (simp add: q_def)
  from B(3) B(4) have q1: "1 \<le> q" and q24: "q \<le> 2 ^ 24"
    by (simp_all add: q_def nat_le_iff)
  have ub: "unat (to_ulong (block_cost cfg)) = 100 * q"
    using unat_to_ulong [of "block_cost cfg"] B(1) B(3)
    by (simp add: q_def nat_mult_distrib)
  have ub1: "unat (to_ulong (block_cost cfg + 1)) = 100 * q + 1"
    using unat_to_ulong [of "block_cost cfg + 1"] B(2) B(3)
    by (simp add: q_def nat_mult_distrib nat_add_distrib)
  have lim: "100 * q + 1 \<le> 1677721601" using q24 by simp
  have s1: "unat (to_ulong (block_cost cfg + 1) + to_ulong (block_cost cfg)) = 200 * q + 1"
    using unat_sum_small [of "to_ulong (block_cost cfg + 1)" 1677721601 "to_ulong (block_cost cfg)" 1677721601]
      ub ub1 lim by simp
  have s2: "unat (to_ulong (block_cost cfg) + 101) = 100 * q + 101"
    using unat_sum_small [of "to_ulong (block_cost cfg)" 1677721601 101 101] ub lim by simp
  have s3: "unat (to_ulong (block_cost cfg) + 1) = 100 * q + 1"
    using unat_sum_small [of "to_ulong (block_cost cfg)" 1677721601 1 1] ub lim by simp
  have s4': "unat (to_ulong (block_cost cfg) + to_ulong (block_cost cfg)) = 200 * q"
    using unat_sum_small [of "to_ulong (block_cost cfg)" 1677721601 "to_ulong (block_cost cfg)" 1677721601]
      ub lim by simp
  have s4: "unat (to_ulong (block_cost cfg) + to_ulong (block_cost cfg) + 1) = 200 * q + 1"
    using unat_sum_small [of "to_ulong (block_cost cfg) + to_ulong (block_cost cfg)" 3355443202 1 1]
      s4' lim by simp
  have "0 < unat c \<and> unat c \<le> 200 * q + 1"
    using c ub1 s1 s2 s3 s4 q1 by auto
  then have "int 0 < int (unat c) \<and> int (unat c) \<le> int (200 * q + 1)"
    by (simp only: of_nat_less_iff of_nat_le_iff)
  then show ?thesis by (simp add: qi)
qed

lemma cycles_grow:
  fixes a c :: ulong
  assumes "c \<noteq> 0" "unat a + unat c < 2 ^ 64"
  shows "a < a + c"
proof -
  from assms(2) have "unat a + unat c < 2 ^ LENGTH(64)" by simp
  then have "unat (a + c) = unat a + unat c" by (simp only: unat_add_lem)
  moreover from assms(1) have "0 < unat c" by (simp add: unat_gt_0)
  ultimately show ?thesis by (simp add: word_less_nat_alt)
qed

text \<open>
  Claim C5, as amended. After any run under a validated configuration the total of loads is
  the sum of load hits and load misses, and the total of stores the sum of store hits and
  store misses. When the block size is at most \<open>2 ^ 26\<close>, every load or store adds to the
  64-bit cycle counter an amount between 1 and \<^verbatim>\<open>200 * (blockSize / 4) + 1\<close>, and the
  counter grows strictly across the access unless this addition passes \<open>2 ^ 64\<close>.
\<close>

theorem counters_and_cycles:
  "validate cfg = None \<and> run_from cfg t (init_sim new_line cfg) = Inr st \<longrightarrow>
     totalLoads st = loadHits st + loadMisses st
     \<and> totalStores st = storeHits st + storeMisses st
     \<and> ((oper = ''l'' \<or> oper = ''s'') \<and> sint (blockSize cfg) \<le> 2 ^ 26 \<longrightarrow>
          (\<exists>st' c. step cfg (oper, addr) st = Inr st' \<and> cycles st' = cycles st + c
             \<and> 0 < uint c \<and> uint c \<le> 200 * (sint (blockSize cfg) div 4) + 1
             \<and> (uint (cycles st) + uint c < 2 ^ 64 \<longrightarrow> cycles st < cycles st')))"
proof (intro impI)
  assume h: "validate cfg = None \<and> run_from cfg t (init_sim new_line cfg) = Inr st"
  then have v: "validate cfg = None" and r: "run_from cfg t (init_sim new_line cfg) = Inr st"
    by simp_all
  from reach_inv1 [OF v r] have co: "totalLoads st = loadHits st + loadMisses st"
    "totalStores st = storeHits st + storeMisses st"
    by (simp_all add: inv1_def counts_ok_def)
  have "\<exists>st' c. step cfg (oper, addr) st = Inr st' \<and> cycles st' = cycles st + c
             \<and> 0 < uint c \<and> uint c \<le> 200 * (sint (blockSize cfg) div 4) + 1
             \<and> (uint (cycles st) + uint c < 2 ^ 64 \<longrightarrow> cycles st < cycles st')"
    if a: "(oper = ''l'' \<or> oper = ''s'') \<and> sint (blockSize cfg) \<le> 2 ^ 26"
  proof -
    from a have op: "oper = ''l'' \<or> oper = ''s''" and small: "sint (blockSize cfg) \<le> 2 ^ 26"
      by simp_all
    from step_cycles [OF v r op, of addr] obtain st' c where
      st': "step cfg (oper, addr) st = Inr st'" "cycles st' = cycles st + c"
      and c: "c = 1 \<or> c = 101 \<or> c = 100
                \<or> c = to_ulong (block_cost cfg + 1)
                \<or> c = to_ulong (block_cost cfg + 1) + to_ulong (block_cost cfg)
                \<or> c = to_ulong (block_cost cfg) + 101
                \<or> c = to_ulong (block_cost cfg) + 1
                \<or> c = to_ulong (block_cost cfg) + to_ulong (block_cost cfg) + 1"
      by blast
    from cost_nonzero [OF c] have nz: "c \<noteq> 0" .
    have g: "uint (cycles st) + uint c < 2 ^ 64 \<longrightarrow> cycles st < cycles st'"
    proof
      assume "uint (cycles st) + uint c < 2 ^ 64"
      then have "int (unat (cycles st) + unat c) < int (2 ^ 64)" by simp
      then have "unat (cycles st) + unat c < 2 ^ 64" by (simp only: of_nat_less_iff)
      from cycles_grow [OF nz this] show "cycles st < cycles st'" by (simp only: st'(2))
    qed
    from cost_bounds [OF v small c] st' g show ?thesis by blast
  qed
  with co show "totalLoads st = loadHits st + loadMisses st
     \<and> totalStores st = storeHits st + storeMisses st
     \<and> ((oper = ''l'' \<or> oper = ''s'') \<and> sint (blockSize cfg) \<le> 2 ^ 26 \<longrightarrow>
          (\<exists>st' c. step cfg (oper, addr) st = Inr st' \<and> cycles st' = cycles st + c
             \<and> 0 < uint c \<and> uint c \<le> 200 * (sint (blockSize cfg) div 4) + 1
             \<and> (uint (cycles st) + uint c < 2 ^ 64 \<longrightarrow> cycles st < cycles st')))"
    by blast
qed

text \<open>The theorem after the first load of scenario A, at the second load: 101 cycles are
  counted, the block size 4 is below \<open>2 ^ 26\<close>, the load adds at most 201 cycles without
  passing \<open>2 ^ 64\<close>, and the counter grows.\<close>

theorem counters_and_cycles_witness:
  "validate scenario_config = None
   \<and> sint (blockSize scenario_config) \<le> 2 ^ 26
   \<and> (\<exists>st. run_from scenario_config [(''l'', 0)] (init_sim new_line scenario_config) = Inr st
        \<and> totalLoads st = loadHits st + loadMisses st
        \<and> cycles st = 101
        \<and> (\<exists>st' c. step scenario_config (''l'', 0) st = Inr st' \<and> cycles st' = cycles st + c
              \<and> uint (cycles st) + uint c < 2 ^ 64 \<and> cycles st < cycles st'))"
proof -
  let ?c = scenario_config
  define st where "st = (init_sim new_line scenario_config)
      \<lparr>cache := [[\<lparr>valid = True, dirty = False, tag = 0, lastUsed = 1\<rparr>]],
       totalLoads := 1, loadMisses := 1, cycles := 101, timeCounter := 1\<rparr>"
  have v: "validate ?c = None" by code_simp
  have r: "run_from ?c [(''l'', 0)] (init_sim new_line ?c) = Inr st"
    unfolding st_def by code_simp
  have small: "sint (blockSize ?c) \<le> 2 ^ 26" by (simp add: scenario_config_def)
  have q: "sint (blockSize ?c) div 4 = 1" by (simp add: scenario_config_def)
  have cy: "cycles st = 101" by (simp add: st_def)
  have op: "(''l'' = ''l'' \<or> ''l'' = ''s'') \<and> sint (blockSize ?c) \<le> 2 ^ 26"
    using small by simp
  note T = counters_and_cycles [of ?c "[(''l'', 0)]" st "''l''" 0, rule_format, OF conjI [OF v r]]
  from T have co: "totalLoads st = loadHits st + loadMisses st" by (rule conjunct1)
  from T [THEN conjunct2, THEN conjunct2, rule_format, OF op] obtain st' c where
    st': "step ?c (''l'', 0) st = Inr st'" "cycles st' = cycles st + c"
    and b: "uint c \<le> 200 * (sint (blockSize ?c) div 4) + 1"
    and g: "uint (cycles st) + uint c < 2 ^ 64 \<longrightarrow> cycles st < cycles st'"
    by blast
  from b q have "uint c \<le> 201" by simp
  then have nw: "uint (cycles st) + uint c < 2 ^ 64" by (simp add: cy)
  with g have "cycles st < cycles st'" by blast
  with v small r co cy st' nw show ?thesis by blast
qed

lemma wide_facts:
  "validate wide_block_config = None"
  "setIndex wide_block_config a = 0"
  "tag_of wide_block_config 0 = 0"
  "tag_of wide_block_config 67108864 = 1"
  "to_ulong (block_cost wide_block_config + 1) = 1677721601"
  "nat (sint (blocksPerSet wide_block_config)) = 1"
  "useLRU wide_block_config"
  by (simp_all add: wide_block_config_def model_defs)

lemma alternating_init: "init_sim new_line wide_block_config = alternating_state 0"
  by (simp add: init_sim_def alternating_state_def wide_block_config_def new_line_def)

lemma alternating_step:
  "step wide_block_config (''l'', if even n then 0 else 67108864) (alternating_state n)
     = Inr (alternating_state (Suc n))"
proof -
  let ?st = "alternating_state n"
  let ?tg = "if even n then (0 :: uint) else 1"
  have s: "0 < length (cache ?st)" "length (cache ?st ! 0) = nat (sint (blocksPerSet wide_block_config))"
    "cache ?st ! 0 \<noteq> []"
    by (simp_all add: alternating_state_def wide_facts)
  have nr: "\<not> resident (cache ?st ! 0) ?tg"
    by (auto simp: alternating_state_def resident_def)
  from access_load_miss [OF s nr] obtain j where j: "is_target (cache ?st ! 0) j"
    and a: "access wide_block_config ''l'' 0 ?tg ?st =
       Inr (?st\<lparr>cache := (cache ?st)[0 := (cache ?st ! 0)[j := (cache ?st ! 0 ! j)
                     \<lparr>valid := True, tag := ?tg, lastUsed := timeCounter ?st + 1, dirty := False\<rparr>]],
               totalLoads := totalLoads ?st + 1, loadMisses := loadMisses ?st + 1,
               cycles := cycles ?st + to_ulong (block_cost wide_block_config + 1)
                  + (if (\<forall>l \<in> set (cache ?st ! 0). valid l) \<and> writePolicy wide_block_config = ''write-back''
                        \<and> dirty (cache ?st ! 0 ! j)
                     then to_ulong (block_cost wide_block_config) else 0),
               timeCounter := timeCounter ?st + 1\<rparr>)" by blast
  from is_target_less [OF j] have j0: "j = 0" by (simp add: alternating_state_def)
  have tg: "tag_of wide_block_config (if even n then 0 else 67108864) = ?tg"
    by (simp add: wide_facts)
  show ?thesis
    unfolding step_def fst_conv snd_conv wide_facts(2) tg unat_0 a j0
    by (simp add: alternating_state_def wide_facts distrib_right)
qed

lemma alternating_run:
  "run_from wide_block_config (alternating n) (init_sim new_line wide_block_config)
     = Inr (alternating_state n)"
proof (induction n)
  case 0
  then show ?case by (simp add: alternating_init)
next
  case (Suc n)
  then show ?case
    by (simp add: run_from_append and_then_def alternating_step)
qed

text \<open>
  Claim C5 as stated fails. The cycle counter is an \<^verbatim>\<open>unsigned long\<close>: under the validated
  configuration with blocks of \<open>2 ^ 26\<close> bytes every load of the alternating trace is a
  miss that adds 1677721601 cycles; after 10995116271 loads the counter holds
  18446744073363269871, and the next load wraps it around \<open>2 ^ 64\<close> to 1331439856.
  Moreover the costs are computed in \<^verbatim>\<open>int\<close>: under the validated configuration with
  blocks of \<open>2 ^ 27\<close> bytes \<^verbatim>\<open>100 * (blockSize / 4) + 1\<close> leaves the range of \<^verbatim>\<open>int\<close>;
  the first load miss leaves 18446744072770027521 in the counter and the second load miss
  18446744071830503426, which is less.
\<close>

theorem cycles_decrease_counterexample:
  "validate wide_block_config = None
   \<and> map_sum id cycles (simulate wide_block_config (alternating 10995116271))
       = Inr 18446744073363269871
   \<and> map_sum id cycles (simulate wide_block_config (alternating 10995116272))
       = Inr 1331439856
   \<and> \<not> ((18446744073363269871 :: ulong) \<le> 1331439856)
   \<and> validate big_block_config = None
   \<and> map_sum id cycles (simulate big_block_config [(''l'', 0)]) = Inr 18446744072770027521
   \<and> map_sum id cycles (simulate big_block_config [(''l'', 0), (''l'', 134217728)])
       = Inr 18446744071830503426
   \<and> \<not> ((18446744072770027521 :: ulong) \<le> 18446744071830503426)"
proof -
  have a: "map_sum id cycles (simulate wide_block_config (alternating n)) = Inr (of_nat n * 1677721601)"
    for n
    by (simp add: simulate_def wide_facts(1) alternating_run alternating_state_def)
  have "validate big_block_config = None
   \<and> map_sum id cycles (simulate big_block_config [(''l'', 0)]) = Inr 18446744072770027521
   \<and> map_sum id cycles (simulate big_block_config [(''l'', 0), (''l'', 134217728)])
       = Inr 18446744071830503426
   \<and> \<not> ((18446744072770027521 :: ulong) \<le> 18446744071830503426)"
    by (simp add: big_block_config_def model_defs)
  moreover have "map_sum id cycles (simulate wide_block_config (alternating 10995116271))
       = Inr 18446744073363269871"
    unfolding a by simp
  moreover have "map_sum id cycles (simulate wide_block_config (alternating 10995116272))
       = Inr 1331439856"
    unfolding a by simp
  moreover have "\<not> ((18446744073363269871 :: ulong) \<le> 1331439856)" by simp
  ultimately show ?thesis using wide_facts(1) by blast
qed

section \<open>Time stamps\<close>

lemma stamps_upto_mono: "stamps_upto n ls \<Longrightarrow> n \<le> m \<Longrightarrow> stamps_upto m ls"
  by (auto simp: stamps_upto_def)

lemma stamps_upto_nth: "stamps_upto n ls \<Longrightarrow> i < length ls \<Longrightarrow> valid (ls ! i) \<Longrightarrow> unat (lastUsed (ls ! i)) \<le> n"
  by (auto simp: stamps_upto_def)

lemma stamps_upto_update:
  assumes "stamps_upto n ls" "valid l' \<longrightarrow> unat (lastUsed l') \<le> Suc n"
  shows "stamps_upto (Suc n) (ls[j := l'])"
  unfolding stamps_upto_def
proof
  fix l
  assume "l \<in> set (ls[j := l'])"
  then have "l = l' \<or> l \<in> set ls" using set_update_subset_insert [of ls j l'] by auto
  with assms show "valid l \<longrightarrow> unat (lastUsed l) \<le> Suc n"
    by (auto simp: stamps_upto_def le_Suc_eq)
qed

lemma distinct_stamps_fresh:
  assumes d: "distinct_stamps ls" and u: "stamps_upto n ls" and j: "j < length ls"
    and l': "unat (lastUsed l') = Suc n"
  shows "distinct_stamps (ls[j := l'])"
  unfolding distinct_stamps_def
proof (intro allI impI)
  fix i k
  assume i: "i < length (ls[j := l'])" and k: "k < length (ls[j := l'])"
    and h: "i \<noteq> k \<and> valid (ls[j := l'] ! i) \<and> valid (ls[j := l'] ! k)"
  have old: "unat (lastUsed (ls ! m)) \<noteq> Suc n" if "m < length ls" "valid (ls ! m)" for m
    using stamps_upto_nth [OF u that] by simp
  show "lastUsed (ls[j := l'] ! i) \<noteq> lastUsed (ls[j := l'] ! k)"
  proof (cases "i = j")
    case True
    with h have kj: "k \<noteq> j" by auto
    with h k have "valid (ls ! k)" by simp
    from old [OF _ this] k have "unat (lastUsed (ls ! k)) \<noteq> Suc n" by simp
    with True kj j l' show ?thesis by auto
  next
    case False
    show ?thesis
    proof (cases "k = j")
      case True
      with h i False have "valid (ls ! i)" by simp
      from old [OF _ this] i have "unat (lastUsed (ls ! i)) \<noteq> Suc n" by simp
      with True False j l' show ?thesis by auto
    next
      case kj: False
      with False i k h d show ?thesis by (simp add: distinct_stamps_def)
    qed
  qed
qed

lemma distinct_stamps_same:
  assumes d: "distinct_stamps ls" and j: "j < length ls"
    and l': "valid l' = valid (ls ! j)" "lastUsed l' = lastUsed (ls ! j)"
  shows "distinct_stamps (ls[j := l'])"
proof -
  have "valid (ls[j := l'] ! i) = valid (ls ! i) \<and> lastUsed (ls[j := l'] ! i) = lastUsed (ls ! i)"
    if "i < length ls" for i
    using that l' by (cases "i = j") simp_all
  with d show ?thesis by (simp add: distinct_stamps_def)
qed

lemma next_set_stamps:
  assumes d: "distinct_stamps ls" and u: "stamps_upto n ls" and ne: "ls \<noteq> []"
    and tc: "unat tc = Suc n"
  shows "distinct_stamps (next_set cfg oper tg tc ls) \<and> stamps_upto (Suc n) (next_set cfg oper tg tc ls)"
  using ne
proof (cases rule: next_set_cases [where cfg = cfg and oper = oper and tg = tg and tc = tc])
  case same
  with d stamps_upto_mono [OF u, of "Suc n"] show ?thesis by simp
next
  case (hit j)
  from hit(1) have j: "j < length ls" and vj: "valid (ls ! j)" by (simp_all add: is_hit_at_def)
  show ?thesis
  proof (cases "useLRU cfg")
    case True
    then have "unat (lastUsed (hit_line cfg oper tc (ls ! j))) = Suc n" by (simp add: tc)
    from distinct_stamps_fresh [OF d u j this] stamps_upto_update [OF u, of "hit_line cfg oper tc (ls ! j)" j] this
    show ?thesis unfolding hit(3) by simp
  next
    case False
    then have s: "valid (hit_line cfg oper tc (ls ! j)) = valid (ls ! j)"
      "lastUsed (hit_line cfg oper tc (ls ! j)) = lastUsed (ls ! j)" by simp_all
    from stamps_upto_nth [OF u j vj] s
    have "valid (hit_line cfg oper tc (ls ! j)) \<longrightarrow> unat (lastUsed (hit_line cfg oper tc (ls ! j))) \<le> Suc n"
      by simp
    from distinct_stamps_same [OF d j s] stamps_upto_update [OF u this]
    show ?thesis unfolding hit(3) by simp
  qed
next
  case (install j)
  from install(2) have j: "j < length ls" by (rule is_target_less)
  have "unat (lastUsed (install_line cfg oper tg tc (ls ! j))) = Suc n" by (simp add: tc)
  from distinct_stamps_fresh [OF d u j this] stamps_upto_update [OF u, of "install_line cfg oper tg tc (ls ! j)" j] this
  show ?thesis unfolding install(4) by simp
qed

lemma unat_Suc_stamp:
  assumes "Suc n < 2 ^ 64"
  shows "unat ((of_nat n :: ulong) + 1) = Suc n"
proof -
  have e: "(of_nat n :: ulong) + 1 = of_nat (Suc n)" by simp
  have "unat (of_nat (Suc n) :: ulong) = Suc n"
    using assms by (simp only: unat_of_nat) simp
  then show ?thesis by (simp only: e)
qed

lemma step_inv2:
  assumes v: "validate cfg = None" and i1: "inv1 cfg st" and i2: "inv2 n st"
    and n: "Suc n < 2 ^ 64" and st: "step cfg a st = Inr st'"
  shows "inv2 (Suc n) st'"
proof -
  from i1 have sh: "shape cfg st" by (simp add: inv1_def)
  note S = shape_set [OF v sh, of "snd a"]
  let ?s = "unat (setIndex cfg (snd a))"
  from step_cache [OF v sh, of a] st
  have c: "cache st' = (cache st)[?s := next_set cfg (fst a) (tag_of cfg (snd a)) (timeCounter st + 1)
                   (cache st ! ?s)]"
    and t: "timeCounter st' = timeCounter st + 1" by auto
  from i2 have tn: "timeCounter st = of_nat n" by (simp add: inv2_def)
  have tc: "unat (timeCounter st + 1) = Suc n" unfolding tn by (rule unat_Suc_stamp [OF n])
  from i2 S(1) have "distinct_stamps (cache st ! ?s)" "stamps_upto n (cache st ! ?s)"
    by (simp_all add: inv2_def)
  from next_set_stamps [OF this S(3) tc]
  have new: "distinct_stamps (next_set cfg (fst a) (tag_of cfg (snd a)) (timeCounter st + 1) (cache st ! ?s))
      \<and> stamps_upto (Suc n) (next_set cfg (fst a) (tag_of cfg (snd a)) (timeCounter st + 1) (cache st ! ?s))" .
  from i2 have "\<forall>ls \<in> set (cache st). distinct_stamps ls \<and> stamps_upto (Suc n) ls"
    by (auto simp: inv2_def intro: stamps_upto_mono)
  then have "\<forall>ls \<in> set (cache st'). distinct_stamps ls \<and> stamps_upto (Suc n) ls"
    unfolding c using new by (rule all_set_update)
  moreover have "timeCounter st' = of_nat (Suc n)" by (simp add: t tn)
  ultimately show ?thesis by (simp add: inv2_def)
qed

lemma inv2_init: "inv2 0 (init_sim new_line cfg)"
  by (simp add: inv2_def init_sim_def distinct_stamps_def stamps_upto_def new_line_def)

lemma run_inv2:
  assumes v: "validate cfg = None"
  shows "inv1 cfg st \<Longrightarrow> inv2 n st \<Longrightarrow> n + length t < 2 ^ 64 \<Longrightarrow> run_from cfg t st = Inr st'
           \<Longrightarrow> inv1 cfg st' \<and> inv2 (n + length t) st'"
proof (induction t arbitrary: st n)
  case Nil
  then show ?case by simp
next
  case (Cons a t)
  from Cons.prems(1) have "shape cfg st" by (simp add: inv1_def)
  from step_cache [OF v this, of a] obtain st1 where st1: "step cfg a st = Inr st1" by blast
  from step_inv1 [OF v Cons.prems(1) st1] have a1: "inv1 cfg st1" .
  from Cons.prems(3) have "Suc n < 2 ^ 64" by simp
  from step_inv2 [OF v Cons.prems(1) Cons.prems(2) this st1] have a2: "inv2 (Suc n) st1" .
  from Cons.prems(4) st1 have r: "run_from cfg t st1 = Inr st'" by (simp add: and_then_def)
  from Cons.prems(3) have "Suc n + length t < 2 ^ 64" by simp
  from Cons.IH [OF a1 a2 this r] show ?case by simp
qed

lemma reach_inv2:
  assumes "validate cfg = None" "run_from cfg t (init_sim new_line cfg) = Inr st" "length t < 2 ^ 64"
  shows "inv2 (length t) st"
  using run_inv2 [OF assms(1) inv1_init inv2_init _ assms(2)] assms(3) by simp

lemma ex_victim:
  assumes "ls \<noteq> []"
  shows "\<exists>v. is_victim ls v"
proof -
  define m where "m = Min (lastUsed ` set ls)"
  define P where "P i \<longleftrightarrow> i < length ls \<and> lastUsed (ls ! i) = m" for i
  from assms have "m \<in> lastUsed ` set ls" unfolding m_def by (intro Min_in) simp_all
  then have ex: "\<exists>i. P i" by (auto simp: P_def in_set_conv_nth)
  define v where "v = (LEAST i. P i)"
  from ex have Pv: "P v" unfolding v_def by (rule LeastI_ex)
  have lo: "\<not> P k" if "k < v" for k using that unfolding v_def by (rule not_less_Least)
  have le: "m \<le> lastUsed (ls ! k)" if "k < length ls" for k
    unfolding m_def using that by (intro Min_le) simp_all
  have "is_victim ls v"
    unfolding is_victim_def
  proof (intro conjI allI impI)
    from Pv show "v < length ls" by (simp add: P_def)
    fix k
    assume "k < length ls"
    from le [OF this] Pv show "lastUsed (ls ! v) \<le> lastUsed (ls ! k)" by (simp add: P_def)
  next
    fix k
    assume k: "k < v"
    with Pv have kl: "k < length ls" by (simp add: P_def)
    from lo [OF k] kl have "lastUsed (ls ! k) \<noteq> m" by (simp add: P_def)
    with le [OF kl] Pv show "lastUsed (ls ! v) < lastUsed (ls ! k)" by (simp add: P_def)
  qed
  then show ?thesis ..
qed

lemma distinct_stamps_strict:
  assumes d: "distinct_stamps ls" and full: "\<forall>l \<in> set ls. valid l" and v: "is_victim ls v"
    and k: "k < length ls" "k \<noteq> v"
  shows "lastUsed (ls ! v) < lastUsed (ls ! k)"
proof -
  from v have vl: "v < length ls" and le: "lastUsed (ls ! v) \<le> lastUsed (ls ! k)"
    using k(1) by (simp_all add: is_victim_def)
  from full vl k(1) have "valid (ls ! v)" "valid (ls ! k)" by simp_all
  with d vl k have "lastUsed (ls ! v) \<noteq> lastUsed (ls ! k)"
    by (simp add: distinct_stamps_def)
  with le show ?thesis by simp
qed

text \<open>
  Claim C10. In every state that the first program reaches from the empty cache under a
  validated configuration by a trace of fewer than \<open>2 ^ 64\<close> lines (the range of the
  64-bit time stamp counter), two distinct valid lines of a set never carry the same time
  stamp. Hence a set without invalid lines has a victim whose time stamp is strictly below
  that of every other line: the least time stamp is reached once, and the preference for the
  lowest index among equal stamps never decides.
\<close>

theorem distinct_time_stamps:
  "validate cfg = None \<and> run_from cfg t (init_sim new_line cfg) = Inr st \<and> length t < 2 ^ 64 \<longrightarrow>
     (\<forall>ls \<in> set (cache st).
        (\<forall>i<length ls. \<forall>j<length ls.
           i \<noteq> j \<and> valid (ls ! i) \<and> valid (ls ! j) \<longrightarrow> lastUsed (ls ! i) \<noteq> lastUsed (ls ! j))
        \<and> ((\<forall>l \<in> set ls. valid l) \<longrightarrow>
             (\<exists>v. is_victim ls v \<and> (\<forall>k<length ls. k \<noteq> v \<longrightarrow> lastUsed (ls ! v) < lastUsed (ls ! k)))))"
proof (intro impI ballI)
  fix ls
  assume h: "validate cfg = None \<and> run_from cfg t (init_sim new_line cfg) = Inr st \<and> length t < 2 ^ 64"
    and ls: "ls \<in> set (cache st)"
  then have v: "validate cfg = None" and r: "run_from cfg t (init_sim new_line cfg) = Inr st"
    and n: "length t < 2 ^ 64" by simp_all
  from reach_inv2 [OF v r n] ls have d: "distinct_stamps ls" by (simp add: inv2_def)
  from reach_inv1 [OF v r] ls have "length ls = nat (sint (blocksPerSet cfg))"
    by (simp add: inv1_def shape_def)
  with isPowerOfTwo_pos [OF validate_None(2) [OF v]] have ne: "ls \<noteq> []" by auto
  from ex_victim [OF ne] obtain w where w: "is_victim ls w" ..
  have "(\<forall>l \<in> set ls. valid l) \<longrightarrow>
         (\<exists>v. is_victim ls v \<and> (\<forall>k<length ls. k \<noteq> v \<longrightarrow> lastUsed (ls ! v) < lastUsed (ls ! k)))"
    using distinct_stamps_strict [OF d _ w] w by blast
  with d show "(\<forall>i<length ls. \<forall>j<length ls.
           i \<noteq> j \<and> valid (ls ! i) \<and> valid (ls ! j) \<longrightarrow> lastUsed (ls ! i) \<noteq> lastUsed (ls ! j))
        \<and> ((\<forall>l \<in> set ls. valid l) \<longrightarrow>
             (\<exists>v. is_victim ls v \<and> (\<forall>k<length ls. k \<noteq> v \<longrightarrow> lastUsed (ls ! v) < lastUsed (ls ! k))))"
    unfolding distinct_stamps_def by blast
qed

text \<open>The theorem after two loads that fill a two-line set: the lines carry the stamps 1
  and 2, and the victim, line 0, has the strictly smaller one.\<close>

theorem distinct_time_stamps_witness:
  "validate (two_way_config ''lru'') = None
   \<and> (\<exists>st ls. run_from (two_way_config ''lru'') [(''l'', 0), (''l'', 4)]
                 (init_sim new_line (two_way_config ''lru'')) = Inr st
        \<and> length [(''l'', 0 :: uint), (''l'', 4)] < (2 :: nat) ^ 64
        \<and> cache st = [ls] \<and> length ls = 2 \<and> (\<forall>l \<in> set ls. valid l)
        \<and> lastUsed (ls ! 0) = 1 \<and> lastUsed (ls ! 1) = 2
        \<and> lastUsed (ls ! 0) \<noteq> lastUsed (ls ! 1)
        \<and> (\<exists>v. is_victim ls v \<and> (\<forall>k<length ls. k \<noteq> v \<longrightarrow> lastUsed (ls ! v) < lastUsed (ls ! k))))"
proof -
  let ?c = "two_way_config ''lru''"
  define ls where "ls = [\<lparr>valid = True, dirty = False, tag = 0, lastUsed = 1\<rparr>,
                         \<lparr>valid = True, dirty = False, tag = 1, lastUsed = 2\<rparr>]"
  define st where "st = (init_sim new_line ?c)\<lparr>cache := [ls], totalLoads := 2, loadMisses := 2,
                            cycles := 202, timeCounter := 2\<rparr>"
  have v: "validate ?c = None" by code_simp
  have r: "run_from ?c [(''l'', 0), (''l'', 4)] (init_sim new_line ?c) = Inr st"
    unfolding st_def ls_def by code_simp
  have n: "length [(''l'', 0 :: uint), (''l'', 4)] < (2 :: nat) ^ 64" by simp
  have c: "ls \<in> set (cache st)" "cache st = [ls]" by (simp_all add: st_def)
  have facts: "length ls = 2 \<and> (\<forall>l \<in> set ls. valid l) \<and> lastUsed (ls ! 0) = 1 \<and> lastUsed (ls ! 1) = 2"
    by (simp add: ls_def)
  then have va: "(0::nat) < length ls \<and> 1 < length ls \<and> (0::nat) \<noteq> 1 \<and> valid (ls ! 0) \<and> valid (ls ! 1)"
    by (simp add: ls_def)
  note T = distinct_time_stamps [of ?c "[(''l'', 0), (''l'', 4)]" st, rule_format,
             OF conjI [OF v conjI [OF r n]] c(1)]
  from T [THEN conjunct1, rule_format, of 0 1] va
  have ne: "lastUsed (ls ! 0) \<noteq> lastUsed (ls ! 1)" by blast
  from T [THEN conjunct2] facts
  have "\<exists>v. is_victim ls v \<and> (\<forall>k<length ls. k \<noteq> v \<longrightarrow> lastUsed (ls ! v) < lastUsed (ls ! k))"
    by blast
  with v r n c(2) facts ne show ?thesis by blast
qed

section \<open>LRU and FIFO\<close>

lemma next_set_hit:
  assumes "resident ls tg" "oper = ''l'' \<or> oper = ''s''"
  shows "\<exists>j. is_hit_at ls tg j \<and> next_set cfg oper tg tc ls = ls[j := hit_line cfg oper tc (ls ! j)]"
proof -
  from scan_hit [OF assms(1)] obtain j where j: "is_hit_at ls tg j"
    "hit (scan ls tg 0 scan_init)" "hitIndex (scan ls tg 0 scan_init) = int j" by blast
  with assms(2) have "next_set cfg oper tg tc ls = ls[j := hit_line cfg oper tc (ls ! j)]"
    by (auto simp: next_set_def Let_def)
  with j(1) show ?thesis by blast
qed

lemma next_set_miss:
  assumes "\<not> resident ls tg" "ls \<noteq> []"
  shows "\<exists>j. is_target ls j \<and>
           next_set cfg oper tg tc ls =
             (if oper = ''l'' \<or> oper = ''s'' \<and> isWriteAlloc cfg
              then ls[j := install_line cfg oper tg tc (ls ! j)] else ls)"
proof -
  from scan_miss [OF assms] obtain j where j: "is_target ls j"
    "\<not> hit (scan ls tg 0 scan_init)" "target (scan ls tg 0 scan_init) = int j" by blast
  then have "next_set cfg oper tg tc ls =
             (if oper = ''l'' \<or> oper = ''s'' \<and> isWriteAlloc cfg
              then ls[j := install_line cfg oper tg tc (ls ! j)] else ls)"
    by (auto simp: next_set_def Let_def)
  with j(1) show ?thesis by blast
qed

lemma kept_mono: "kept n0 T D ls \<Longrightarrow> D \<subseteq> D' \<Longrightarrow> kept n0 T D' ls"
  unfolding kept_def by blast

lemma kept_resident: "kept n0 T D ls \<Longrightarrow> resident ls T"
  unfolding kept_def resident_def by (metis nth_mem)

lemma resident_nth: "resident ls tg \<longleftrightarrow> (\<exists>i<length ls. valid (ls ! i) \<and> tag (ls ! i) = tg)"
  unfolding resident_def by (metis in_set_conv_nth)

text \<open>The line of \<open>T\<close> is not the insertion target while fewer tags than lines were accessed.\<close>

lemma target_not_kept:
  assumes k: "p < length ls" "valid (ls ! p)" "n0 \<le> unat (lastUsed (ls ! p))"
    and others: "\<forall>q<length ls. q \<noteq> p \<and> valid (ls ! q) \<and> n0 \<le> unat (lastUsed (ls ! q))
              \<longrightarrow> tag (ls ! q) \<in> D"
    and dt: "distinct_tags ls" and nr: "\<not> resident ls tg"
    and fin: "finite D" and card: "card (insert tg D) < length ls"
    and tgt: "is_target ls j"
  shows "j \<noteq> p"
proof
  assume jp: "j = p"
  from tgt jp k(2) have full: "\<forall>l \<in> set ls. valid l" and vic: "is_victim ls p"
    by (auto simp: is_target_def is_first_empty_def split: if_splits)
  define Q where "Q = {q. q < length ls \<and> q \<noteq> p}"
  have fQ: "finite Q" by (simp add: Q_def)
  have cQ: "card Q = length ls - 1"
  proof -
    have "Q = {..<length ls} - {p}" by (auto simp: Q_def)
    with k(1) show ?thesis by simp
  qed
  have inD: "tag (ls ! q) \<in> D" if "q \<in> Q" for q
  proof -
    from that have q: "q < length ls" "q \<noteq> p" by (simp_all add: Q_def)
    from full q(1) have vq: "valid (ls ! q)" by simp
    from vic q(1) have "lastUsed (ls ! p) \<le> lastUsed (ls ! q)" by (simp add: is_victim_def)
    then have "unat (lastUsed (ls ! p)) \<le> unat (lastUsed (ls ! q))" by (simp add: word_le_nat_alt)
    with k(3) have "n0 \<le> unat (lastUsed (ls ! q))" by simp
    with others q vq show ?thesis by blast
  qed
  have inj: "inj_on (\<lambda>q. tag (ls ! q)) Q"
  proof (rule inj_onI)
    fix x y
    assume "x \<in> Q" "y \<in> Q" and e: "tag (ls ! x) = tag (ls ! y)"
    then have x: "x < length ls" and y: "y < length ls" by (simp_all add: Q_def)
    from full x y have "valid (ls ! x)" "valid (ls ! y)" by simp_all
    with dt x y e show "x = y" unfolding distinct_tags_def by blast
  qed
  have notin: "tg \<notin> (\<lambda>q. tag (ls ! q)) ` Q"
  proof
    assume "tg \<in> (\<lambda>q. tag (ls ! q)) ` Q"
    then obtain q where "q < length ls" "tag (ls ! q) = tg" by (auto simp: Q_def)
    with full have "resident ls tg" by (auto simp: resident_nth)
    with nr show False by simp
  qed
  have "insert tg ((\<lambda>q. tag (ls ! q)) ` Q) \<subseteq> insert tg D" using inD by auto
  then have "card (insert tg ((\<lambda>q. tag (ls ! q)) ` Q)) \<le> card (insert tg D)"
    using fin by (intro card_mono) simp_all
  moreover have "card (insert tg ((\<lambda>q. tag (ls ! q)) ` Q)) = Suc (card Q)"
    using notin fQ by (simp add: card_image [OF inj])
  ultimately have "Suc (length ls - 1) \<le> card (insert tg D)" by (simp add: cQ)
  with card k(1) show False by simp
qed

lemma kept_next_set:
  assumes lru: "useLRU cfg" and dt: "distinct_tags ls" and u: "stamps_upto n ls"
    and tc: "unat tc = Suc n" and n0: "n0 \<le> n" and ne: "ls \<noteq> []"
    and k: "kept n0 T D ls" and fin: "finite D"
    and card: "tg \<noteq> T \<Longrightarrow> card (insert tg D) < length ls"
  shows "kept n0 T (if tg = T then D else insert tg D) (next_set cfg oper tg tc ls)"
proof -
  from k obtain p where p: "p < length ls" "valid (ls ! p)" "tag (ls ! p) = T"
    "n0 \<le> unat (lastUsed (ls ! p))"
    and others: "\<forall>q<length ls. q \<noteq> p \<and> valid (ls ! q) \<and> n0 \<le> unat (lastUsed (ls ! q))
              \<longrightarrow> tag (ls ! q) \<in> D"
    unfolding kept_def by blast
  let ?D = "if tg = T then D else insert tg D"
  have sub: "D \<subseteq> ?D" by auto
  have same: "kept n0 T ?D ls" using k sub by (rule kept_mono)
  show ?thesis
  proof (cases "resident ls tg")
    case True
    show ?thesis
    proof (cases "oper = ''l'' \<or> oper = ''s''")
      case op: True
      from next_set_hit [OF True op, of cfg tc] obtain j where j: "is_hit_at ls tg j"
        and nx: "next_set cfg oper tg tc ls = ls[j := hit_line cfg oper tc (ls ! j)]" by blast
      from j have jl: "j < length ls" and vj: "valid (ls ! j)" and tj: "tag (ls ! j) = tg"
        by (simp_all add: is_hit_at_def)
      let ?l = "hit_line cfg oper tc (ls ! j)"
      have lu: "unat (lastUsed ?l) = Suc n" using lru by (simp add: tc)
      show ?thesis
      proof (cases "tg = T")
        case eq: True
        from distinct_tags_unique [OF dt jl p(1) vj _ p(2) p(3)] tj eq have jp: "j = p" by simp
        have "kept n0 T D (ls[j := ?l])"
          unfolding kept_def
        proof (intro exI [of _ p] conjI allI impI)
          show "p < length (ls[j := ?l])" using p(1) by simp
          show "valid (ls[j := ?l] ! p)" using p jp by simp
          show "tag (ls[j := ?l] ! p) = T" using p jp by simp
          show "n0 \<le> unat (lastUsed (ls[j := ?l] ! p))" using p(1) jp lu n0 by simp
        next
          fix q
          assume "q < length (ls[j := ?l])"
            and "q \<noteq> p \<and> valid (ls[j := ?l] ! q) \<and> n0 \<le> unat (lastUsed (ls[j := ?l] ! q))"
          with jp others show "tag (ls[j := ?l] ! q) \<in> D" by (auto simp: nth_list_update)
        qed
        with eq nx show ?thesis by simp
      next
        case neq: False
        with tj p(3) have jp: "j \<noteq> p" by auto
        have "kept n0 T (insert tg D) (ls[j := ?l])"
          unfolding kept_def
        proof (intro exI [of _ p] conjI allI impI)
          show "p < length (ls[j := ?l])" using p(1) by simp
          show "valid (ls[j := ?l] ! p)" using p jp by simp
          show "tag (ls[j := ?l] ! p) = T" using p jp by simp
          show "n0 \<le> unat (lastUsed (ls[j := ?l] ! p))" using p jp by simp
        next
          fix q
          assume q: "q < length (ls[j := ?l])"
            and h: "q \<noteq> p \<and> valid (ls[j := ?l] ! q) \<and> n0 \<le> unat (lastUsed (ls[j := ?l] ! q))"
          show "tag (ls[j := ?l] ! q) \<in> insert tg D"
          proof (cases "q = j")
            case True
            with jl tj show ?thesis by simp
          next
            case False
            with q h others show ?thesis by (auto simp: nth_list_update)
          qed
        qed
        with neq nx show ?thesis by simp
      qed
    next
      case False
      then have "next_set cfg oper tg tc ls = ls" by (simp add: next_set_def Let_def)
      with same show ?thesis by simp
    qed
  next
    case False
    with kept_resident [OF k] have neq: "tg \<noteq> T" by auto
    from next_set_miss [OF False ne, of cfg oper tc] obtain j where j: "is_target ls j"
      and nx: "next_set cfg oper tg tc ls =
             (if oper = ''l'' \<or> oper = ''s'' \<and> isWriteAlloc cfg
              then ls[j := install_line cfg oper tg tc (ls ! j)] else ls)" by blast
    show ?thesis
    proof (cases "oper = ''l'' \<or> oper = ''s'' \<and> isWriteAlloc cfg")
      case True
      from j have jl: "j < length ls" by (rule is_target_less)
      from target_not_kept [OF p(1) p(2) p(4) others dt False fin card [OF neq] j]
      have jp: "j \<noteq> p" .
      let ?l = "install_line cfg oper tg tc (ls ! j)"
      have "kept n0 T (insert tg D) (ls[j := ?l])"
        unfolding kept_def
      proof (intro exI [of _ p] conjI allI impI)
        show "p < length (ls[j := ?l])" using p(1) by simp
        show "valid (ls[j := ?l] ! p)" using p jp by simp
        show "tag (ls[j := ?l] ! p) = T" using p jp by simp
        show "n0 \<le> unat (lastUsed (ls[j := ?l] ! p))" using p jp by simp
      next
        fix q
        assume q: "q < length (ls[j := ?l])"
          and h: "q \<noteq> p \<and> valid (ls[j := ?l] ! q) \<and> n0 \<le> unat (lastUsed (ls[j := ?l] ! q))"
        show "tag (ls[j := ?l] ! q) \<in> insert tg D"
        proof (cases "q = j")
          case True
          with jl show ?thesis by simp
        next
          case False
          with q h others show ?thesis by (auto simp: nth_list_update)
        qed
      qed
      with neq nx True show ?thesis by simp
    next
      case nop: False
      with nx same show ?thesis by simp
    qed
  qed
qed

lemma other_tags_Cons:
  "other_tags cfg s T (a # t) =
     (if unat (setIndex cfg (snd a)) = s \<and> tag_of cfg (snd a) \<noteq> T
      then tag_of cfg (snd a) # other_tags cfg s T t else other_tags cfg s T t)"
  by (simp add: other_tags_def)

lemma lru_run:
  assumes v: "validate cfg = None" and lru: "useLRU cfg"
  shows "inv1 cfg st \<Longrightarrow> inv2 n st \<Longrightarrow> n0 \<le> n \<Longrightarrow> n + length t < 2 ^ 64
           \<Longrightarrow> s < length (cache st) \<Longrightarrow> kept n0 T D (cache st ! s) \<Longrightarrow> finite D
           \<Longrightarrow> card (D \<union> set (other_tags cfg s T t)) < nat (sint (blocksPerSet cfg))
           \<Longrightarrow> \<exists>st'. run_from cfg t st = Inr st'
                  \<and> kept n0 T (D \<union> set (other_tags cfg s T t)) (cache st' ! s)"
proof (induction t arbitrary: st n D)
  case Nil
  then show ?case by (simp add: other_tags_def)
next
  case (Cons a t)
  let ?sa = "unat (setIndex cfg (snd a))"
  let ?tg = "tag_of cfg (snd a)"
  let ?N = "nat (sint (blocksPerSet cfg))"
  from Cons.prems(1) have sh: "shape cfg st" by (simp add: inv1_def)
  note S = shape_set [OF v sh, of "snd a"]
  from step_cache [OF v sh, of a] obtain st1 where st1: "step cfg a st = Inr st1"
    and c1: "cache st1 = (cache st)[?sa := next_set cfg (fst a) ?tg (timeCounter st + 1) (cache st ! ?sa)]"
    by blast
  from step_inv1 [OF v Cons.prems(1) st1] have a1: "inv1 cfg st1" .
  from Cons.prems(4) have sn: "Suc n < 2 ^ 64" by simp
  from step_inv2 [OF v Cons.prems(1) Cons.prems(2) sn st1] have a2: "inv2 (Suc n) st1" .
  from Cons.prems(3) have n0': "n0 \<le> Suc n" by simp
  from Cons.prems(4) have len': "Suc n + length t < 2 ^ 64" by simp
  from Cons.prems(5) c1 have s1: "s < length (cache st1)" by simp
  define D1 where "D1 = (if ?sa = s \<and> ?tg \<noteq> T then insert ?tg D else D)"
  have fin1: "finite D1" using Cons.prems(7) by (simp add: D1_def)
  have un: "D1 \<union> set (other_tags cfg s T t) = D \<union> set (other_tags cfg s T (a # t))"
    by (auto simp: D1_def other_tags_Cons)
  have k1: "kept n0 T D1 (cache st1 ! s)"
  proof (cases "?sa = s")
    case True
    let ?ls = "cache st ! s"
    from True S have lenls: "length ?ls = ?N" and ne: "?ls \<noteq> []" by simp_all
    from Cons.prems(1) Cons.prems(5) have dt: "distinct_tags ?ls" by (simp add: inv1_def)
    from Cons.prems(2) Cons.prems(5) have u: "stamps_upto n ?ls" by (simp add: inv2_def)
    from Cons.prems(2) have tn: "timeCounter st = of_nat n" by (simp add: inv2_def)
    have tc: "unat (timeCounter st + 1) = Suc n" unfolding tn by (rule unat_Suc_stamp [OF sn])
    have card: "card (insert ?tg D) < length ?ls" if "?tg \<noteq> T"
    proof -
      from that True have "insert ?tg D \<subseteq> D \<union> set (other_tags cfg s T (a # t))"
        by (auto simp: other_tags_Cons)
      then have "card (insert ?tg D) \<le> card (D \<union> set (other_tags cfg s T (a # t)))"
        using Cons.prems(7) by (intro card_mono) simp_all
      with Cons.prems(8) lenls show ?thesis by simp
    qed
    from kept_next_set [OF lru dt u tc Cons.prems(3) ne Cons.prems(6) Cons.prems(7) card,
           of "fst a"]
    have "kept n0 T (if ?tg = T then D else insert ?tg D)
            (next_set cfg (fst a) ?tg (timeCounter st + 1) ?ls)" by simp
    moreover have "cache st1 ! s = next_set cfg (fst a) ?tg (timeCounter st + 1) ?ls"
      using True c1 Cons.prems(5) by simp
    moreover have "D1 = (if ?tg = T then D else insert ?tg D)" using True by (simp add: D1_def)
    ultimately show ?thesis by simp
  next
    case False
    then have "cache st1 ! s = cache st ! s" using c1 by simp
    moreover from False have "D1 = D" by (simp add: D1_def)
    ultimately show ?thesis using Cons.prems(6) by simp
  qed
  from Cons.prems(8) un have card1: "card (D1 \<union> set (other_tags cfg s T t)) < ?N" by simp
  from Cons.IH [OF a1 a2 n0' len' s1 k1 fin1 card1] obtain st' where
    "run_from cfg t st1 = Inr st'" "kept n0 T (D1 \<union> set (other_tags cfg s T t)) (cache st' ! s)"
    by blast
  with st1 un show ?case by (simp add: and_then_def)
qed

text \<open>After a load or store under LRU that leaves its tag resident, the tag is kept.\<close>

lemma kept_after_access:
  assumes lru: "useLRU cfg" and op: "oper = ''l'' \<or> oper = ''s''"
    and d: "distinct_stamps ls" and u: "stamps_upto n ls" and ne: "ls \<noteq> []"
    and tc: "unat tc = Suc n"
    and res: "resident (next_set cfg oper T tc ls) T"
  shows "kept (Suc n) T {} (next_set cfg oper T tc ls)"
proof -
  let ?ls' = "next_set cfg oper T tc ls"
  from next_set_stamps [OF d u ne tc, of cfg oper T]
  have d': "distinct_stamps ?ls'" and u': "stamps_upto (Suc n) ?ls'" by simp_all
  have "\<exists>p<length ?ls'. valid (?ls' ! p) \<and> tag (?ls' ! p) = T \<and> unat (lastUsed (?ls' ! p)) = Suc n"
  proof (cases "resident ls T")
    case True
    from next_set_hit [OF True op, of cfg tc] obtain j where j: "is_hit_at ls T j"
      and nx: "?ls' = ls[j := hit_line cfg oper tc (ls ! j)]" by blast
    from j have jl: "j < length ls" "valid (ls ! j)" "tag (ls ! j) = T" by (simp_all add: is_hit_at_def)
    with lru tc show ?thesis unfolding nx by (intro exI [of _ j]) simp
  next
    case False
    from next_set_miss [OF False ne, of cfg oper tc] obtain j where j: "is_target ls j"
      and nx: "?ls' = (if oper = ''l'' \<or> oper = ''s'' \<and> isWriteAlloc cfg
              then ls[j := install_line cfg oper T tc (ls ! j)] else ls)" by blast
    from j have jl: "j < length ls" by (rule is_target_less)
    show ?thesis
    proof (cases "oper = ''l'' \<or> oper = ''s'' \<and> isWriteAlloc cfg")
      case True
      with nx have nx': "?ls' = ls[j := install_line cfg oper T tc (ls ! j)]" by simp
      from jl tc show ?thesis unfolding nx' by (intro exI [of _ j]) simp
    next
      case nop: False
      with nx have "?ls' = ls" by simp
      with res False show ?thesis by simp
    qed
  qed
  then obtain p where p: "p < length ?ls'" "valid (?ls' ! p)" "tag (?ls' ! p) = T"
    "unat (lastUsed (?ls' ! p)) = Suc n" by blast
  have "\<not> (q \<noteq> p \<and> valid (?ls' ! q) \<and> Suc n \<le> unat (lastUsed (?ls' ! q)))" if q: "q < length ?ls'" for q
  proof
    assume h: "q \<noteq> p \<and> valid (?ls' ! q) \<and> Suc n \<le> unat (lastUsed (?ls' ! q))"
    with stamps_upto_nth [OF u' q] have "unat (lastUsed (?ls' ! q)) = Suc n" by simp
    with p(4) have "lastUsed (?ls' ! q) = lastUsed (?ls' ! p)" by (simp add: word_unat_eq_iff)
    with d' q p(1) p(2) h show False unfolding distinct_stamps_def by blast
  qed
  with p show ?thesis unfolding kept_def by (intro exI [of _ p]) auto
qed

text \<open>
  Claim C7, as amended. Under a validated configuration with the LRU policy, let a load or
  store leave its tag resident in its set; if the lines of the trace that follow access
  fewer distinct other tags in that set than the set has lines (hits count as well as
  installs), the tag is still resident after them (for traces of fewer than \<open>2 ^ 64\<close>
  lines, the range of the time stamp counter). Under FIFO a tag can be evicted once as many
  distinct other tags as the set has lines were installed after it, although it was hit in
  between: in a two-line set, after loads of the tags 0, 1, 0 (a hit) and 2, tag 0 is gone.
\<close>

theorem lru_keeps_recently_used:
  "(validate cfg = None \<and> useLRU cfg \<and> (fst a = ''l'' \<or> fst a = ''s'')
      \<and> length (t1 @ a # t2) < 2 ^ 64
      \<and> run_from cfg (t1 @ [a]) (init_sim new_line cfg) = Inr st1
      \<and> resident (cache st1 ! unat (setIndex cfg (snd a))) (tag_of cfg (snd a))
      \<and> card (set (other_tags cfg (unat (setIndex cfg (snd a))) (tag_of cfg (snd a)) t2))
          < nat (sint (blocksPerSet cfg))
    \<longrightarrow> (\<exists>st2. run_from cfg (t1 @ a # t2) (init_sim new_line cfg) = Inr st2
           \<and> resident (cache st2 ! unat (setIndex cfg (snd a))) (tag_of cfg (snd a))))
   \<and> validate (two_way_config ''fifo'') = None
   \<and> final_counts (simulate (two_way_config ''fifo'') [(''l'', 0), (''l'', 4), (''l'', 0)])
       = Some (3, 0, 1, 2, 0, 0)
   \<and> leaves_resident (simulate (two_way_config ''fifo'') [(''l'', 0), (''l'', 4), (''l'', 0)]) 0 0
   \<and> other_tags (two_way_config ''fifo'') 0 0 [(''l'', 4), (''l'', 0), (''l'', 8)] = [1, 2]
   \<and> final_counts (simulate (two_way_config ''fifo'') [(''l'', 0), (''l'', 4), (''l'', 0), (''l'', 8)])
       = Some (4, 0, 1, 3, 0, 0)
   \<and> \<not> leaves_resident
         (simulate (two_way_config ''fifo'') [(''l'', 0), (''l'', 4), (''l'', 0), (''l'', 8)]) 0 0"
proof (intro conjI impI)
  let ?s = "unat (setIndex cfg (snd a))"
  let ?T = "tag_of cfg (snd a)"
  let ?i = "init_sim new_line cfg"
  assume h: "validate cfg = None \<and> useLRU cfg \<and> (fst a = ''l'' \<or> fst a = ''s'')
      \<and> length (t1 @ a # t2) < 2 ^ 64
      \<and> run_from cfg (t1 @ [a]) ?i = Inr st1
      \<and> resident (cache st1 ! ?s) ?T
      \<and> card (set (other_tags cfg ?s ?T t2)) < nat (sint (blocksPerSet cfg))"
  then have v: "validate cfg = None" and lru: "useLRU cfg" and op: "fst a = ''l'' \<or> fst a = ''s''"
    and len: "length (t1 @ a # t2) < 2 ^ 64" and r1: "run_from cfg (t1 @ [a]) ?i = Inr st1"
    and res: "resident (cache st1 ! ?s) ?T"
    and card: "card (set (other_tags cfg ?s ?T t2)) < nat (sint (blocksPerSet cfg))"
    by simp_all
  from run_total [OF v, of t1] obtain st0 where r0: "run_from cfg t1 ?i = Inr st0" by blast
  from r1 r0 have sa: "step cfg a st0 = Inr st1"
    by (simp add: run_from_append and_then_def split: sum.splits)
  from len have l0: "length t1 < 2 ^ 64" and l1: "Suc (length t1) < 2 ^ 64"
    and l2: "Suc (length t1) + length t2 < 2 ^ 64" by simp_all
  from reach_inv1 [OF v r0] have i1: "inv1 cfg st0" .
  from reach_inv2 [OF v r0 l0] have i2: "inv2 (length t1) st0" .
  from i1 have sh: "shape cfg st0" by (simp add: inv1_def)
  note S = shape_set [OF v sh, of "snd a"]
  from step_cache [OF v sh, of a] sa
  have c1: "cache st1 = (cache st0)[?s := next_set cfg (fst a) ?T (timeCounter st0 + 1) (cache st0 ! ?s)]"
    by auto
  with S(1) have ls1: "cache st1 ! ?s = next_set cfg (fst a) ?T (timeCounter st0 + 1) (cache st0 ! ?s)"
    by simp
  from i2 S(1) have d: "distinct_stamps (cache st0 ! ?s)" and u: "stamps_upto (length t1) (cache st0 ! ?s)"
    by (simp_all add: inv2_def)
  from i2 have tn: "timeCounter st0 = of_nat (length t1)" by (simp add: inv2_def)
  have tc: "unat (timeCounter st0 + 1) = Suc (length t1)" unfolding tn by (rule unat_Suc_stamp [OF l1])
  from kept_after_access [OF lru op d u S(3) tc] res
  have k: "kept (Suc (length t1)) ?T {} (cache st1 ! ?s)" by (simp add: ls1)
  from step_inv1 [OF v i1 sa] have j1: "inv1 cfg st1" .
  from step_inv2 [OF v i1 i2 l1 sa] have j2: "inv2 (Suc (length t1)) st1" .
  from S(1) c1 have s1: "?s < length (cache st1)" by simp
  from card have card': "card ({} \<union> set (other_tags cfg ?s ?T t2)) < nat (sint (blocksPerSet cfg))"
    by simp
  from lru_run [OF v lru j1 j2 order_refl l2 s1 k finite.emptyI card']
  obtain st2 where r2: "run_from cfg t2 st1 = Inr st2"
    and k2: "kept (Suc (length t1)) ?T ({} \<union> set (other_tags cfg ?s ?T t2)) (cache st2 ! ?s)"
    by blast
  have "t1 @ a # t2 = (t1 @ [a]) @ t2" by simp
  then have "run_from cfg (t1 @ a # t2) ?i = Inr st2"
    using r1 r2 by (simp only: run_from_append) (simp add: and_then_def)
  with kept_resident [OF k2]
  show "\<exists>st2. run_from cfg (t1 @ a # t2) ?i = Inr st2 \<and> resident (cache st2 ! ?s) ?T" by blast
next
  show "validate (two_way_config ''fifo'') = None" by code_simp
  show "final_counts (simulate (two_way_config ''fifo'') [(''l'', 0), (''l'', 4), (''l'', 0)])
       = Some (3, 0, 1, 2, 0, 0)" by code_simp
  show "leaves_resident (simulate (two_way_config ''fifo'') [(''l'', 0), (''l'', 4), (''l'', 0)]) 0 0"
    by code_simp
  show "other_tags (two_way_config ''fifo'') 0 0 [(''l'', 4), (''l'', 0), (''l'', 8)] = [1, 2]"
    by code_simp
  show "final_counts (simulate (two_way_config ''fifo'') [(''l'', 0), (''l'', 4), (''l'', 0), (''l'', 8)])
       = Some (4, 0, 1, 3, 0, 0)" by code_simp
  show "\<not> leaves_resident
         (simulate (two_way_config ''fifo'') [(''l'', 0), (''l'', 4), (''l'', 0), (''l'', 8)]) 0 0"
    by code_simp
qed

text \<open>The theorem in a two-line set under LRU: after loads of the tags 0 and 1, a load of
  tag 2 is the only other tag accessed after tag 1, and tag 1 is still resident.\<close>

theorem lru_keeps_recently_used_witness:
  "validate (two_way_config ''lru'') = None \<and> useLRU (two_way_config ''lru'')
   \<and> length ([(''l'', 0 :: uint)] @ (''l'', 4) # [(''l'', 8)]) < (2 :: nat) ^ 64
   \<and> leaves_resident (run_from (two_way_config ''lru'') ([(''l'', 0)] @ [(''l'', 4)])
                        (init_sim new_line (two_way_config ''lru''))) 0 1
   \<and> other_tags (two_way_config ''lru'') 0 1 [(''l'', 8)] = [2]
   \<and> (\<exists>st2. run_from (two_way_config ''lru'') ([(''l'', 0)] @ (''l'', 4) # [(''l'', 8)])
               (init_sim new_line (two_way_config ''lru'')) = Inr st2
        \<and> resident (cache st2 ! 0) 1)"
proof -
  let ?c = "two_way_config ''lru''"
  let ?a = "(''l'', 4 :: uint)"
  define st1 where "st1 = (init_sim new_line ?c)
      \<lparr>cache := [[\<lparr>valid = True, dirty = False, tag = 0, lastUsed = 1\<rparr>,
                  \<lparr>valid = True, dirty = False, tag = 1, lastUsed = 2\<rparr>]],
       totalLoads := 2, loadMisses := 2, cycles := 202, timeCounter := 2\<rparr>"
  have v: "validate ?c = None" by code_simp
  have lru: "useLRU ?c" by code_simp
  have op: "fst ?a = ''l'' \<or> fst ?a = ''s''" by simp
  have len: "length ([(''l'', 0 :: uint)] @ ?a # [(''l'', 8)]) < (2 :: nat) ^ 64" by simp
  have r1: "run_from ?c ([(''l'', 0)] @ [?a]) (init_sim new_line ?c) = Inr st1"
    unfolding st1_def by code_simp
  have s: "unat (setIndex ?c (snd ?a)) = 0" and T: "tag_of ?c (snd ?a) = 1" by code_simp+
  have res: "resident (cache st1 ! 0) 1" by (simp add: st1_def resident_def)
  have ot: "other_tags ?c 0 1 [(''l'', 8)] = [2]" by code_simp
  have N: "nat (sint (blocksPerSet ?c)) = 2" by (simp add: two_way_config_def)
  have card: "card (set (other_tags ?c 0 1 [(''l'', 8)])) < nat (sint (blocksPerSet ?c))"
    by (simp add: ot N)
  have h: "validate ?c = None \<and> useLRU ?c \<and> (fst ?a = ''l'' \<or> fst ?a = ''s'')
      \<and> length ([(''l'', 0)] @ ?a # [(''l'', 8)]) < 2 ^ 64
      \<and> run_from ?c ([(''l'', 0)] @ [?a]) (init_sim new_line ?c) = Inr st1
      \<and> resident (cache st1 ! unat (setIndex ?c (snd ?a))) (tag_of ?c (snd ?a))
      \<and> card (set (other_tags ?c (unat (setIndex ?c (snd ?a))) (tag_of ?c (snd ?a)) [(''l'', 8)]))
          < nat (sint (blocksPerSet ?c))"
    unfolding s T using v lru op len r1 res card by blast
  from lru_keeps_recently_used [of ?c ?a "[(''l'', 0)]" "[(''l'', 8)]" st1,
         THEN conjunct1, rule_format, OF h]
  have "\<exists>st2. run_from ?c ([(''l'', 0)] @ ?a # [(''l'', 8)]) (init_sim new_line ?c) = Inr st2
          \<and> resident (cache st2 ! 0) 1"
    unfolding s T .
  moreover have "leaves_resident (run_from ?c ([(''l'', 0)] @ [?a]) (init_sim new_line ?c)) 0 1"
    unfolding r1 using res by (simp add: leaves_resident_def)
  ultimately show ?thesis using v lru len ot by blast
qed

text \<open>
  Claim C7 as stated fails under LRU. In a set of four lines, filled by loads of the tags
  0, 1, 2 and 3, tag 0 is hit (fifth load); the three other tags are hit after it, and then
  a single install, of tag 4, evicts tag 0: one install after the hit, fewer than the three
  of the claim, and the tag is no longer resident.
\<close>

theorem lru_installs_counterexample:
  "validate (four_way_config ''lru'') = None
   \<and> final_counts (simulate (four_way_config ''lru'')
        [(''l'', 0), (''l'', 4), (''l'', 8), (''l'', 12), (''l'', 0)]) = Some (5, 0, 1, 4, 0, 0)
   \<and> leaves_resident (simulate (four_way_config ''lru'')
        [(''l'', 0), (''l'', 4), (''l'', 8), (''l'', 12), (''l'', 0)]) 0 0
   \<and> final_counts (simulate (four_way_config ''lru'')
        [(''l'', 0), (''l'', 4), (''l'', 8), (''l'', 12), (''l'', 0),
         (''l'', 4), (''l'', 8), (''l'', 12), (''l'', 16)]) = Some (9, 0, 4, 5, 0, 0)
   \<and> \<not> leaves_resident (simulate (four_way_config ''lru'')
        [(''l'', 0), (''l'', 4), (''l'', 8), (''l'', 12), (''l'', 0),
         (''l'', 4), (''l'', 8), (''l'', 12), (''l'', 16)]) 0 0"
  by code_simp

section \<open>The two programs\<close>

text \<open>
  Claim C9 fails on the code. On a two-line set under LRU, for the loads of the tags
  0, 1, 0, 2, 0, the first program reports 2 load hits and 3 load misses, the second one
  1 load hit and 4 load misses: the second program stamps the hit on tag 0 with the counter
  before its increment, 2, the stamp that the install of tag 1 carries already, and the
  load of tag 2 then evicts tag 0, the line used last, where the first program evicts tag 1.
\<close>

theorem programs_disagree_on_hits:
  "final_counts (simulate (two_way_config ''lru'')
        [(''l'', 0), (''l'', 4), (''l'', 0), (''l'', 8), (''l'', 0)]) = Some (5, 0, 2, 3, 0, 0)
   \<and> final_counts (simulate2 (two_way_config ''lru'')
        [(''l'', 0), (''l'', 4), (''l'', 0), (''l'', 8), (''l'', 0)]) = Some (5, 0, 1, 4, 0, 0)
   \<and> map_sum id cache (simulate2 (two_way_config ''lru'') [(''l'', 0), (''l'', 4), (''l'', 0)])
       = Inr [[\<lparr>valid2 = True, tag2 = 0, lastUsed2 = 2\<rparr>, \<lparr>valid2 = True, tag2 = 1, lastUsed2 = 2\<rparr>]]
   \<and> map_sum id cache (simulate (two_way_config ''lru'') [(''l'', 0), (''l'', 4), (''l'', 0)])
       = Inr [[\<lparr>valid = True, dirty = False, tag = 0, lastUsed = 3\<rparr>,
               \<lparr>valid = True, dirty = False, tag = 1, lastUsed = 2\<rparr>]]"
  by code_simp

end
